theory Spec2Isabelle
  imports Main "HOL-Library.Char_ord" "HOL-Library.List_Lexorder" "HOL-Library.Word"
begin

section \<open>Strings and the regular-expression library\<close>

text \<open>
  Go strings are byte sequences and are compared bytewise; they are modelled as
  \<^typ>\<open>string\<close> with the byte order of \<open>Char_ord\<close> and the lexicographic order of
  \<open>List_Lexorder\<close>. The backslash byte cannot be written inside a string literal, so
  it has a name.
\<close>

definition bs :: char where
  "bs = CHR 0x5C"

text \<open>
  \<^verbatim>\<open>regexp.QuoteMeta\<close> puts a backslash in front of every byte of
  \<^verbatim>\<open>\.+*?()|[]{}^$\<close> and copies every other byte.
\<close>

definition special :: "char \<Rightarrow> bool" where
  "special c = (c \<in> set (bs # ''.+*?()|[]{}^$''))"

fun QuoteMeta :: "string \<Rightarrow> string" where
  "QuoteMeta [] = []"
| "QuoteMeta (c # s) = (if special c then bs # c # QuoteMeta s else c # QuoteMeta s)"

text \<open>
  The fragment of the regular-expression syntax that the program writes and produces:
  a literal byte, and the greedy repetition of a negated one-byte class
  (\<^verbatim>\<open>[^c]*\<close>). A program of the library is a sequence of such instructions.
\<close>

datatype inst = Lit char | StarNot char

text \<open>
  \<open>class_star\<close> reads what follows an opening bracket: a caret, one class byte (plain,
  or a punctuation byte after a backslash), the closing bracket and the star. It
  returns the class byte and the rest of the pattern.
\<close>

definition digit :: "char \<Rightarrow> bool" where
  "digit c = (c \<in> set ''0123456789'')"

fun class_star :: "string \<Rightarrow> (char \<times> string) option" where
  "class_star (h # d # r # q # u) =
     (if h = CHR ''^'' \<and> d \<noteq> bs \<and> d \<noteq> CHR '']'' \<and> r = CHR '']'' \<and> q = CHR ''*''
      then Some (d, u)
      else (case u of
              [] \<Rightarrow> None
            | p # v \<Rightarrow>
                if h = CHR ''^'' \<and> d = bs \<and> special r \<and> q = CHR '']'' \<and> p = CHR ''*''
                then Some (r, v) else None))"
| "class_star s = None"

text \<open>
  \<open>compile\<close> is the parser of \<^verbatim>\<open>regexp.Compile\<close> on this fragment; \<open>None\<close> is
  returned for a pattern outside the fragment as well as for a malformed one. An
  opening brace that does not start a counted repetition is a literal, and so is a
  closing brace.
\<close>

function compile :: "string \<Rightarrow> inst list option" where
  "compile [] = Some []"
| "compile (c # s) =
     (if c = bs then
        (case s of
           [] \<Rightarrow> None
         | d # t \<Rightarrow> if special d then map_option ((#) (Lit d)) (compile t) else None)
      else if c = CHR ''['' then
        (case class_star s of
           None \<Rightarrow> None
         | Some (d, u) \<Rightarrow> map_option ((#) (StarNot d)) (compile u))
      else if c = CHR ''{'' then
        (case s of
           [] \<Rightarrow> Some [Lit c]
         | d # t \<Rightarrow> if digit d then None else map_option ((#) (Lit c)) (compile s))
      else if c = CHR ''}'' then map_option ((#) (Lit c)) (compile s)
      else if special c then None
      else map_option ((#) (Lit c)) (compile s))"
  by pat_completeness auto
termination
proof (relation "measure length")
  fix c s x2 d u
  assume "class_star s = Some x2" and "(d, u) = x2"
  then have "class_star s = Some (d, u)" by simp
  then have "length u < length s"
    by (induction s rule: class_star.induct) (auto split: if_splits list.splits)
  then show "(u, c # s) \<in> measure length" by simp
qed simp_all

text \<open>
  \<open>match_here\<close> is the leftmost-first match of a program at the start of the input:
  the repetition is greedy and gives bytes back one at a time until the rest of the
  program matches. The result is the input that follows the match.
\<close>

fun match_here :: "inst list \<Rightarrow> string \<Rightarrow> string option" where
  "match_here [] s = Some s"
| "match_here (Lit c # r) [] = None"
| "match_here (Lit c # r) (x # s) = (if x = c then match_here r s else None)"
| "match_here (StarNot c # r) [] = match_here r []"
| "match_here (StarNot c # r) (x # s) =
     (if x = c then match_here r (x # s)
      else (case match_here (StarNot c # r) s of
              Some t \<Rightarrow> Some t
            | None \<Rightarrow> match_here r (x # s)))"

text \<open>
  \<^verbatim>\<open>(*Regexp).ReplaceAllLiteralString(src, repl)\<close>: the matches are looked for from
  left to right, each is replaced by \<open>repl\<close>, and the search goes on behind it. The
  library's rule for empty matches is not modelled: a position whose match is empty is
  copied; the pattern of this program matches at least four bytes.
\<close>

function ReplaceAllLiteralString :: "inst list \<Rightarrow> string \<Rightarrow> string \<Rightarrow> string" where
  "ReplaceAllLiteralString re [] repl = []"
| "ReplaceAllLiteralString re (x # s) repl =
     (case match_here re (x # s) of
        None \<Rightarrow> x # ReplaceAllLiteralString re s repl
      | Some t \<Rightarrow>
          if length t < length (x # s) then repl @ ReplaceAllLiteralString re t repl
          else x # ReplaceAllLiteralString re s repl)"
  by pat_completeness auto
termination
  by (relation "measure (\<lambda>(re, s, repl). length s)") auto

section \<open>The path pattern translator\<close>

text \<open>
  \<^verbatim>\<open>var pathParamRegex = regexp.MustCompile(`\\{[^\}]*\\}`)\<close>: the pattern, byte
  for byte, and its program. \<^verbatim>\<open>MustCompile\<close> panics on a pattern that does not
  compile; \<open>pathParamRegex_program\<close> below shows that this one does.
\<close>

definition pathParamPattern :: string where
  "pathParamPattern = [bs, bs] @ ''{[^'' @ [bs] @ ''}]*'' @ [bs, bs] @ ''}''"

definition MustCompile :: "string \<Rightarrow> inst list" where
  "MustCompile p = the (compile p)"

definition pathParamRegex :: "inst list" where
  "pathParamRegex = MustCompile pathParamPattern"

definition pathToRegex :: "string \<Rightarrow> string" where
  "pathToRegex path =
     (let escaped = QuoteMeta path
      in ReplaceAllLiteralString pathParamRegex escaped ''[^/]*'')"

text \<open>
  What the translator computes, read on the template itself: from left to right, an
  opening brace that has a closing brace somewhere behind it is replaced, together with
  everything up to the nearest closing brace, by the wildcard; every other byte is
  escaped. The span may contain further opening braces.
\<close>

function brace_subst :: "string \<Rightarrow> string" where
  "brace_subst [] = []"
| "brace_subst (c # cs) =
     (if c = CHR ''{'' \<and> CHR ''}'' \<in> set cs
      then ''[^/]*'' @ brace_subst (tl (dropWhile (\<lambda>x. x \<noteq> CHR ''}'') cs))
      else QuoteMeta [c] @ brace_subst cs)"
  by pat_completeness auto
termination
  by (relation "measure length")
    (simp_all add: less_Suc_eq_le le_trans [OF diff_le_self length_dropWhile_le])

text \<open>
  The translation in the words of the specification: a placeholder token is an opening
  brace, a body without any brace, and a closing brace; each token is replaced by the
  wildcard and every other byte is escaped.
\<close>

function spec_pathToRegex :: "string \<Rightarrow> string" where
  "spec_pathToRegex [] = []"
| "spec_pathToRegex (c # cs) =
     (let rest = dropWhile (\<lambda>x. x \<noteq> CHR ''{'' \<and> x \<noteq> CHR ''}'') cs
      in if c = CHR ''{'' \<and> rest \<noteq> [] \<and> hd rest = CHR ''}''
         then ''[^/]*'' @ spec_pathToRegex (tl rest)
         else QuoteMeta [c] @ spec_pathToRegex cs)"
  by pat_completeness auto
termination
  by (relation "measure length")
    (simp_all add: less_Suc_eq_le le_trans [OF diff_le_self length_dropWhile_le])

text \<open>
  \<open>nested_open\<close> holds of a template in which some opening brace is followed, before
  its nearest closing brace, by another opening brace.
\<close>

fun nested_open :: "string \<Rightarrow> bool" where
  "nested_open [] = False"
| "nested_open (c # cs) =
     (if c = CHR ''{'' \<and> CHR ''}'' \<in> set cs
         \<and> CHR ''{'' \<in> set (takeWhile (\<lambda>x. x \<noteq> CHR ''}'') cs)
      then True else nested_open cs)"

text \<open>
  Modelled from the spec: the matcher that evaluates a route pattern on a request path
  is not among the sources at hand. A pattern is read as the specification describes
  it: the wildcard stands for zero or more bytes other than the path separator, and
  every other (escaped) byte for itself. Either the whole path has to match
  (\<open>accepts\<close>, \<open>matches_whole\<close>) or some part of it (\<open>finds\<close>, \<open>matches_part\<close>). A
  pattern that does not compile matches nothing.
\<close>

fun accepts :: "inst list \<Rightarrow> string \<Rightarrow> bool" where
  "accepts [] s = (s = [])"
| "accepts (Lit c # r) [] = False"
| "accepts (Lit c # r) (x # s) = (x = c \<and> accepts r s)"
| "accepts (StarNot c # r) [] = accepts r []"
| "accepts (StarNot c # r) (x # s) =
     (if x = c then accepts r (x # s)
      else if accepts (StarNot c # r) s then True else accepts r (x # s))"

fun finds :: "inst list \<Rightarrow> string \<Rightarrow> bool" where
  "finds re [] = (match_here re [] \<noteq> None)"
| "finds re (x # s) = (if match_here re (x # s) \<noteq> None then True else finds re s)"

definition matches_whole :: "string \<Rightarrow> string \<Rightarrow> bool" where
  "matches_whole pat s = (case compile pat of None \<Rightarrow> False | Some re \<Rightarrow> accepts re s)"

definition matches_part :: "string \<Rightarrow> string \<Rightarrow> bool" where
  "matches_part pat s = (case compile pat of None \<Rightarrow> False | Some re \<Rightarrow> finds re s)"

section \<open>The input document and the service profile\<close>

text \<open>
  The document types of \<^verbatim>\<open>go-openapi/spec\<close>, with the fields the program reads.
  A Go map is an association list whose keys are distinct (\<open>go_map\<close>); the order of
  the list is the order in which a \<^verbatim>\<open>range\<close> loop visits the map in one run, which
  the language leaves open. A nil pointer is \<open>None\<close>; a nil map has no entries and is
  the empty list. \<open>'r\<close> is what the document says about one response.
\<close>

definition go_map :: "('k \<times> 'v) list \<Rightarrow> bool" where
  "go_map m = distinct (map fst m)"

record 'r Responses =
  Default :: "'r option"
  StatusCodeResponses :: "(int \<times> 'r) list"

record 'r Operation =
  Responses :: "'r Responses option"

record 'r PathItem =
  Get :: "'r Operation option"
  Put :: "'r Operation option"
  Post :: "'r Operation option"
  Delete :: "'r Operation option"
  Options :: "'r Operation option"
  Head :: "'r Operation option"
  Patch :: "'r Operation option"

text \<open>\<^verbatim>\<open>swagger.Paths\<close> is a pointer to an object that holds the map of the paths.\<close>

record 'r Swagger =
  Paths :: "(string \<times> 'r PathItem) list option"

text \<open>Indexing a map with a key it does not hold gives the zero value of the type.\<close>

definition zero_PathItem :: "'r PathItem" where
  "zero_PathItem =
     \<lparr>Get = None, Put = None, Post = None, Delete = None, Options = None, Head = None,
      Patch = None\<rparr>"

definition map_index :: "(string \<times> 'r PathItem) list \<Rightarrow> string \<Rightarrow> 'r PathItem" where
  "map_index m k = (case map_of m k of None \<Rightarrow> zero_PathItem | Some item \<Rightarrow> item)"

text \<open>
  Modelled from the spec: the types \<^verbatim>\<open>RouteSpec\<close>, \<^verbatim>\<open>RequestMatch\<close>,
  \<^verbatim>\<open>ResponseClass\<close>, \<^verbatim>\<open>ResponseMatch\<close>, \<^verbatim>\<open>Range\<close>, \<^verbatim>\<open>ServiceProfile\<close>
  and its \<^verbatim>\<open>Spec\<close> of the package \<^verbatim>\<open>serviceprofile/v1alpha1\<close> are declared outside the sources at
  hand. They have the fields of the data model of the specification, under the names
  the program assigns them by. The two bounds of a range are 32-bit unsigned integers;
  the names \<open>Min\<close> and \<open>Max\<close> and the second \<open>Condition\<close> carry a suffix.
\<close>

record Range =
  Min_u32 :: "32 word"
  Max_u32 :: "32 word"

record ResponseMatch =
  Status :: Range

record ResponseClass =
  Condition_rsp :: ResponseMatch
  IsFailure :: bool

record RequestMatch =
  PathRegex :: string
  Method :: string

record RouteSpec =
  Name :: string
  Condition :: RequestMatch
  ResponseClasses :: "ResponseClass list"

record ObjectMeta =
  Name_meta :: string
  Namespace :: string

record TypeMeta =
  APIVersion :: string
  Kind :: string

record ServiceProfileSpec =
  Routes :: "RouteSpec list"

record ServiceProfile =
  object_meta :: ObjectMeta
  type_meta :: TypeMeta
  Spec :: ServiceProfileSpec

text \<open>The method names of \<^verbatim>\<open>net/http\<close>.\<close>

definition MethodGet :: string where "MethodGet = ''GET''"
definition MethodHead :: string where "MethodHead = ''HEAD''"
definition MethodPost :: string where "MethodPost = ''POST''"
definition MethodPut :: string where "MethodPut = ''PUT''"
definition MethodPatch :: string where "MethodPatch = ''PATCH''"
definition MethodDelete :: string where "MethodDelete = ''DELETE''"
definition MethodOptions :: string where "MethodOptions = ''OPTIONS''"

section \<open>The response classifier\<close>

text \<open>
  \<^verbatim>\<open>for k := range m { ks = append(ks, k) }\<close>: the keys of a map in the order of the
  visit.
\<close>

fun range_keys :: "('k \<times> 'v) list \<Rightarrow> 'k list \<Rightarrow> 'k list" where
  "range_keys [] ks = ks"
| "range_keys ((k, v) # m) ks = range_keys m (ks @ [k])"

text \<open>
  The second loop of \<^verbatim>\<open>toRspClasses\<close>. A status is a Go \<^verbatim>\<open>int\<close>; nothing is
  computed with it but the comparison with 500 and the conversion
  \<^verbatim>\<open>uint32(status)\<close>, which keeps the low 32 bits.
\<close>

fun classes_loop :: "int list \<Rightarrow> ResponseClass list \<Rightarrow> ResponseClass list" where
  "classes_loop [] classes = classes"
| "classes_loop (status # statuses) classes =
     (let cond = \<lparr>Status = \<lparr>Min_u32 = word_of_int status, Max_u32 = word_of_int status\<rparr>\<rparr>
      in classes_loop statuses
           (classes @ [\<lparr>Condition_rsp = cond, IsFailure = (500 \<le> status)\<rparr>]))"

text \<open>
  \<^verbatim>\<open>sort.Ints\<close> and \<^verbatim>\<open>sort.Strings\<close> sort plain values into ascending order, and
  there is one such arrangement of a list: \<open>sort\<close>. The nil slice returned for a nil
  pointer has length zero: it is the empty list.
\<close>

fun toRspClasses :: "'r Responses option \<Rightarrow> ResponseClass list" where
  "toRspClasses None = []"
| "toRspClasses (Some responses) =
     (let classes = [];
          statuses = range_keys (StatusCodeResponses responses) [];
          statuses = sort statuses
      in classes_loop statuses classes)"

section \<open>The route enumerator\<close>

definition toReqMatch :: "string \<Rightarrow> string \<Rightarrow> RequestMatch" where
  "toReqMatch path method = \<lparr>PathRegex = path, Method = method\<rparr>"

definition mkRouteSpec ::
  "string \<Rightarrow> string \<Rightarrow> string \<Rightarrow> 'r Responses option \<Rightarrow> RouteSpec" where
  "mkRouteSpec path pathRegex method responses =
     \<lparr>Name = method @ '' '' @ path,
      Condition = toReqMatch pathRegex method,
      ResponseClasses = toRspClasses responses\<rparr>"

text \<open>One \<^verbatim>\<open>if item.M != nil { ... routes = append(routes, spec) }\<close> of the loop.\<close>

definition add_route ::
  "string \<Rightarrow> string \<Rightarrow> string \<Rightarrow> 'r Operation option \<Rightarrow> RouteSpec list \<Rightarrow> RouteSpec list" where
  "add_route path pathRegex method operation routes =
     (case operation of
        None \<Rightarrow> routes
      | Some oper \<Rightarrow> routes @ [mkRouteSpec path pathRegex method (Responses oper)])"

text \<open>The body of the loop over the sorted paths, and the loop.\<close>

definition path_body ::
  "(string \<times> 'r PathItem) list \<Rightarrow> string \<Rightarrow> RouteSpec list \<Rightarrow> RouteSpec list" where
  "path_body m path routes =
     (let item = map_index m path;
          pathRegex = pathToRegex path;
          routes = add_route path pathRegex MethodDelete (Delete item) routes;
          routes = add_route path pathRegex MethodGet (Get item) routes;
          routes = add_route path pathRegex MethodHead (Head item) routes;
          routes = add_route path pathRegex MethodOptions (Options item) routes;
          routes = add_route path pathRegex MethodPatch (Patch item) routes;
          routes = add_route path pathRegex MethodPost (Post item) routes;
          routes = add_route path pathRegex MethodPut (Put item) routes
      in routes)"

fun routes_loop ::
  "(string \<times> 'r PathItem) list \<Rightarrow> string list \<Rightarrow> RouteSpec list \<Rightarrow> RouteSpec list" where
  "routes_loop m [] routes = routes"
| "routes_loop m (path # paths) routes = routes_loop m paths (path_body m path routes)"

text \<open>
  The part of \<^verbatim>\<open>renderOpenAPI\<close> between the parsing of the document and the
  serialisation of the profile: the routes of a document.
\<close>

definition openAPI_routes :: "'r Swagger \<Rightarrow> RouteSpec list" where
  "openAPI_routes swagger =
     (let routes = [];
          paths = (case Paths swagger of
                     None \<Rightarrow> []
                   | Some m \<Rightarrow> sort (range_keys m []))
      in routes_loop (case Paths swagger of None \<Rightarrow> [] | Some m \<Rightarrow> m) paths routes)"

text \<open>
  \<^verbatim>\<open>renderOpenAPI\<close> with what it calls outside the program as parameters: opening
  and reading the input, the two parsers, the serialiser, and the package variable
  \<^verbatim>\<open>controlPlaneNamespace\<close>. An error is its message. The result is the error
  returned, or else the content of the writer after the call.
\<close>

type_synonym error = string

record profileOptions =
  name :: string
  namespace :: string
  template :: bool
  openAPI :: string

record ('h, 'r) collaborators =
  Stdin :: 'h
  Open :: "string \<Rightarrow> error + 'h"
  ReadAll :: "'h \<Rightarrow> error + string"
  YAMLToJSON :: "string \<Rightarrow> error + string"
  UnmarshalJSON :: "string \<Rightarrow> error + 'r Swagger"
  Marshal :: "ServiceProfile \<Rightarrow> error + string"
  controlPlaneNamespace :: string

definition renderOpenAPI ::
  "('h, 'r) collaborators \<Rightarrow> profileOptions \<Rightarrow> string \<Rightarrow> error + string" where
  "renderOpenAPI env options w =
     (case (if openAPI options = ''-'' then Inr (Stdin env) else Open env (openAPI options)) of
        Inl err \<Rightarrow> Inl err
      | Inr input \<Rightarrow>
     (case ReadAll env input of
        Inl err \<Rightarrow> Inl (''Error reading file: '' @ err)
      | Inr bytes \<Rightarrow>
     (case YAMLToJSON env bytes of
        Inl err \<Rightarrow> Inl (''Error parsing yaml: '' @ err)
      | Inr json \<Rightarrow>
     (case UnmarshalJSON env json of
        Inl err \<Rightarrow> Inl (''Error parsing OpenAPI spec: '' @ err)
      | Inr swagger \<Rightarrow>
     (let profile =
            \<lparr>object_meta =
               \<lparr>Name_meta = name options @ ''.'' @ namespace options @ ''.svc.cluster.local'',
                Namespace = controlPlaneNamespace env\<rparr>,
             type_meta = \<lparr>APIVersion = ''linkerd.io/v1alpha1'', Kind = ''ServiceProfile''\<rparr>,
             Spec = \<lparr>Routes = []\<rparr>\<rparr>;
          routes = openAPI_routes swagger;
          profile = profile\<lparr>Spec := (Spec profile)\<lparr>Routes := routes\<rparr>\<rparr>
      in case Marshal env profile of
           Inl err \<Rightarrow> Inl (''Error writing Service Profile: '' @ err)
         | Inr output \<Rightarrow> Inr (w @ output))))))"

section \<open>The enumeration in the words of the specification\<close>

text \<open>
  The seven methods in the canonical order, the accessor of a path item by method,
  and the declared operations of a document: the paths in ascending order and, for
  each path, the methods in the canonical order that have an operation.
\<close>

datatype http_method = DELETE | GET | HEAD | OPTIONS | PATCH | POST | PUT

definition canonical_methods :: "http_method list" where
  "canonical_methods = [DELETE, GET, HEAD, OPTIONS, PATCH, POST, PUT]"

fun rank :: "http_method \<Rightarrow> nat" where
  "rank DELETE = 0"
| "rank GET = 1"
| "rank HEAD = 2"
| "rank OPTIONS = 3"
| "rank PATCH = 4"
| "rank POST = 5"
| "rank PUT = 6"

fun method_name :: "http_method \<Rightarrow> string" where
  "method_name DELETE = MethodDelete"
| "method_name GET = MethodGet"
| "method_name HEAD = MethodHead"
| "method_name OPTIONS = MethodOptions"
| "method_name PATCH = MethodPatch"
| "method_name POST = MethodPost"
| "method_name PUT = MethodPut"

fun operation_of :: "'r PathItem \<Rightarrow> http_method \<Rightarrow> 'r Operation option" where
  "operation_of item DELETE = Delete item"
| "operation_of item GET = Get item"
| "operation_of item HEAD = Head item"
| "operation_of item OPTIONS = Options item"
| "operation_of item PATCH = Patch item"
| "operation_of item POST = Post item"
| "operation_of item PUT = Put item"

definition path_map :: "'r Swagger \<Rightarrow> (string \<times> 'r PathItem) list" where
  "path_map swagger = (case Paths swagger of None \<Rightarrow> [] | Some m \<Rightarrow> m)"

definition declared_at ::
  "(string \<times> 'r PathItem) list \<Rightarrow> string \<Rightarrow> (string \<times> http_method \<times> 'r Operation) list" where
  "declared_at m path =
     concat (map (\<lambda>meth. case operation_of (map_index m path) meth of
                            None \<Rightarrow> []
                          | Some oper \<Rightarrow> [(path, meth, oper)]) canonical_methods)"

definition declared_ops :: "'r Swagger \<Rightarrow> (string \<times> http_method \<times> 'r Operation) list" where
  "declared_ops swagger =
     concat (map (declared_at (path_map swagger))
               (sorted_list_of_set (fst ` set (path_map swagger))))"

definition rule_of :: "string \<times> http_method \<times> 'r Operation \<Rightarrow> RouteSpec" where
  "rule_of t =
     (case t of (path, meth, oper) \<Rightarrow>
        \<lparr>Name = method_name meth @ '' '' @ path,
         Condition = \<lparr>PathRegex = pathToRegex path, Method = method_name meth\<rparr>,
         ResponseClasses = toRspClasses (Responses oper)\<rparr>)"

definition before :: "string \<times> http_method \<times> 'a \<Rightarrow> string \<times> http_method \<times> 'a \<Rightarrow> bool" where
  "before s t =
     (case (s, t) of ((p, m, x), (q, n, y)) \<Rightarrow> p < q \<or> (p = q \<and> rank m < rank n))"

text \<open>
  Two documents are the same document visited in two orders: their maps hold the same
  keys with the same values, whatever the order of the entries.
\<close>

definition same_map :: "('v \<Rightarrow> 'v \<Rightarrow> bool) \<Rightarrow> ('k \<times> 'v) list \<Rightarrow> ('k \<times> 'v) list \<Rightarrow> bool" where
  "same_map R m1 m2 =
     (set (map fst m1) = set (map fst m2) \<and>
      list_all (\<lambda>(k, v). case map_of m2 k of None \<Rightarrow> False | Some w \<Rightarrow> R v w) m1)"

definition same_responses :: "'r Responses \<Rightarrow> 'r Responses \<Rightarrow> bool" where
  "same_responses r1 r2 =
     (Default r1 = Default r2 \<and>
      same_map (=) (StatusCodeResponses r1) (StatusCodeResponses r2))"

definition same_operation :: "'r Operation option \<Rightarrow> 'r Operation option \<Rightarrow> bool" where
  "same_operation =
     rel_option (\<lambda>o1 o2. rel_option same_responses (Responses o1) (Responses o2))"

definition same_item :: "'r PathItem \<Rightarrow> 'r PathItem \<Rightarrow> bool" where
  "same_item i1 i2 =
     (same_operation (Get i1) (Get i2) \<and> same_operation (Put i1) (Put i2) \<and>
      same_operation (Post i1) (Post i2) \<and> same_operation (Delete i1) (Delete i2) \<and>
      same_operation (Options i1) (Options i2) \<and> same_operation (Head i1) (Head i2) \<and>
      same_operation (Patch i1) (Patch i2))"

definition same_document :: "'r Swagger \<Rightarrow> 'r Swagger \<Rightarrow> bool" where
  "same_document s1 s2 = rel_option (same_map same_item) (Paths s1) (Paths s2)"

text \<open>Every map of a document holds each of its keys once.\<close>

definition wf_operation :: "'r Operation option \<Rightarrow> bool" where
  "wf_operation operation =
     (case operation of
        None \<Rightarrow> True
      | Some oper \<Rightarrow>
          (case Responses oper of None \<Rightarrow> True | Some r \<Rightarrow> go_map (StatusCodeResponses r)))"

definition wf_item :: "'r PathItem \<Rightarrow> bool" where
  "wf_item item =
     (wf_operation (Get item) \<and> wf_operation (Put item) \<and> wf_operation (Post item) \<and>
      wf_operation (Delete item) \<and> wf_operation (Options item) \<and> wf_operation (Head item) \<and>
      wf_operation (Patch item))"

definition wf_document :: "'r Swagger \<Rightarrow> bool" where
  "wf_document swagger =
     (go_map (path_map swagger) \<and> list_all (\<lambda>(k, item). wf_item item) (path_map swagger))"

section \<open>Auxiliary definitions\<close>

text \<open>The class that the loop of \<^verbatim>\<open>toRspClasses\<close> builds for one status.\<close>

definition class_of :: "int \<Rightarrow> ResponseClass" where
  "class_of status =
     \<lparr>Condition_rsp = \<lparr>Status = \<lparr>Min_u32 = word_of_int status, Max_u32 = word_of_int status\<rparr>\<rparr>,
      IsFailure = (500 \<le> status)\<rparr>"

text \<open>
  A document with two paths, one of them with two operations; the same document with
  its maps visited in another order; and collaborators that read a document without
  paths from the standard input.
\<close>

definition books_doc :: "unit Swagger" where
  "books_doc =
     \<lparr>Paths = Some
        [(''/b'', zero_PathItem
            \<lparr>Put := Some \<lparr>Responses = None\<rparr>,
             Delete := Some \<lparr>Responses =
               Some \<lparr>Default = None, StatusCodeResponses = [(500, ()), (204, ())]\<rparr>\<rparr>\<rparr>),
         (''/a/{id}'', zero_PathItem
            \<lparr>Get := Some \<lparr>Responses = Some \<lparr>Default = Some (), StatusCodeResponses = []\<rparr>\<rparr>\<rparr>)]\<rparr>"

definition books_doc_revisited :: "unit Swagger" where
  "books_doc_revisited =
     \<lparr>Paths = Some
        [(''/a/{id}'', zero_PathItem
            \<lparr>Get := Some \<lparr>Responses = Some \<lparr>Default = Some (), StatusCodeResponses = []\<rparr>\<rparr>\<rparr>),
         (''/b'', zero_PathItem
            \<lparr>Put := Some \<lparr>Responses = None\<rparr>,
             Delete := Some \<lparr>Responses =
               Some \<lparr>Default = None, StatusCodeResponses = [(204, ()), (500, ())]\<rparr>\<rparr>\<rparr>)]\<rparr>"

definition empty_env :: "(unit, unit) collaborators" where
  "empty_env =
     \<lparr>Stdin = (),
      Open = (\<lambda>file. Inl (''open '' @ file @ '': no such file or directory'')),
      ReadAll = (\<lambda>h. Inr ''paths: {}''),
      YAMLToJSON = (\<lambda>bytes. Inr bytes),
      UnmarshalJSON = (\<lambda>json. Inr \<lparr>Paths = Some []\<rparr>),
      Marshal = (\<lambda>profile. Inr (Kind (type_meta profile) @ '' '' @ Name_meta (object_meta profile))),
      controlPlaneNamespace = ''linkerd''\<rparr>"

section \<open>Properties\<close>

subsection \<open>The translator on the template\<close>

lemma pathParamRegex_program:
  "compile pathParamPattern =
     Some [Lit bs, Lit (CHR ''{''), StarNot (CHR ''}''), Lit bs, Lit (CHR ''}'')]"
  by (simp add: pathParamPattern_def bs_def special_def digit_def)

lemma pathParamRegex_eq:
  "pathParamRegex = [Lit bs, Lit (CHR ''{''), StarNot (CHR ''}''), Lit bs, Lit (CHR ''}'')]"
  by (simp add: pathParamRegex_def MustCompile_def pathParamRegex_program)

lemma QuoteMeta_append: "QuoteMeta (u @ v) = QuoteMeta u @ QuoteMeta v"
  by (induction u) simp_all

lemma special_bs: "special bs"
  by (simp add: special_def)

lemma QuoteMeta_head: "QuoteMeta cs = x # t \<Longrightarrow> special x \<Longrightarrow> x = bs"
  by (cases cs) (auto split: if_splits)

lemma set_QuoteMeta: "c \<noteq> bs \<Longrightarrow> c \<in> set (QuoteMeta s) \<longleftrightarrow> c \<in> set s"
  by (induction s) auto

lemma star_then_close:
  "c \<notin> set u \<Longrightarrow> a \<noteq> c \<Longrightarrow> match_here [StarNot c, Lit a, Lit c] (u @ a # c # t) = Some t"
  by (induction u) auto

lemma star_no_close:
  "c \<notin> set s \<Longrightarrow> match_here [StarNot c, Lit a, Lit c] s = None"
proof (induction s)
  case Nil
  then show ?case by simp
next
  case (Cons x s)
  then show ?case by (cases s) auto
qed

lemma split_at_close:
  assumes "c \<in> set cs"
  shows "cs = takeWhile (\<lambda>x. x \<noteq> c) cs @ c # tl (dropWhile (\<lambda>x. x \<noteq> c) cs)"
proof -
  have "dropWhile (\<lambda>x. x \<noteq> c) cs \<noteq> []" using assms by (simp add: dropWhile_eq_Nil_conv) 
  moreover have "hd (dropWhile (\<lambda>x. x \<noteq> c) cs) = c"
    using assms hd_dropWhile [of "\<lambda>x. x \<noteq> c" cs] by (auto simp: dropWhile_eq_Nil_conv)
  ultimately have "dropWhile (\<lambda>x. x \<noteq> c) cs = c # tl (dropWhile (\<lambda>x. x \<noteq> c) cs)"
    by (cases "dropWhile (\<lambda>x. x \<noteq> c) cs") auto
  then show ?thesis using takeWhile_dropWhile_id [of "\<lambda>x. x \<noteq> c" cs] by simp
qed

lemma close_ne_bs: "CHR ''}'' \<noteq> bs" "CHR ''{'' \<noteq> bs" "bs \<noteq> CHR ''}''" "bs \<noteq> CHR ''{''"
  by (simp_all add: bs_def)

lemma special_braces: "special (CHR ''{'')" "special (CHR ''}'')"
  by (simp_all add: special_def)

lemma match_placeholder:
  "match_here pathParamRegex (bs # CHR ''{'' # QuoteMeta cs) =
     (if CHR ''}'' \<in> set cs then Some (QuoteMeta (tl (dropWhile (\<lambda>x. x \<noteq> CHR ''}'') cs))) else None)"
proof (cases "CHR ''}'' \<in> set cs")
  case True
  let ?u = "takeWhile (\<lambda>x. x \<noteq> CHR ''}'') cs" and ?t = "tl (dropWhile (\<lambda>x. x \<noteq> CHR ''}'') cs)"
  have "QuoteMeta cs = QuoteMeta (?u @ CHR ''}'' # ?t)"
    using split_at_close [OF True] by simp
  then have q: "QuoteMeta cs = QuoteMeta ?u @ bs # CHR ''}'' # QuoteMeta ?t"
    by (simp add: QuoteMeta_append special_braces)
  have "CHR ''}'' \<notin> set ?u" by (auto dest: set_takeWhileD)
  then have "CHR ''}'' \<notin> set (QuoteMeta ?u)" by (simp add: set_QuoteMeta close_ne_bs)
  then show ?thesis
    using True star_then_close [of "CHR ''}''" "QuoteMeta ?u" bs "QuoteMeta ?t"]
    by (simp add: pathParamRegex_eq q close_ne_bs)
next
  case False
  then have "CHR ''}'' \<notin> set (QuoteMeta cs)" by (simp add: set_QuoteMeta close_ne_bs)
  then show ?thesis using False by (simp add: pathParamRegex_eq star_no_close)
qed

lemma match_no_open:
  "c \<noteq> CHR ''{'' \<Longrightarrow> match_here pathParamRegex (bs # c # s) = None"
  by (simp add: pathParamRegex_eq)

lemma match_not_bs:
  "c \<noteq> bs \<Longrightarrow> match_here pathParamRegex (c # s) = None"
  by (simp add: pathParamRegex_eq)

lemma match_bs_QuoteMeta:
  "match_here pathParamRegex (bs # QuoteMeta cs) = None"
proof (cases "QuoteMeta cs")
  case Nil
  then show ?thesis by (simp add: pathParamRegex_eq)
next
  case (Cons x t)
  then have "x \<noteq> CHR ''{''" using QuoteMeta_head [OF Cons] by (auto simp: special_braces close_ne_bs)
  then show ?thesis using Cons by (simp add: pathParamRegex_eq)
qed

lemma length_QuoteMeta_tl_dropWhile:
  "length (QuoteMeta (tl (dropWhile P cs))) \<le> length (QuoteMeta cs)"
proof -
  have "cs = takeWhile P cs @ dropWhile P cs" by simp
  then have "length (QuoteMeta cs) = length (QuoteMeta (takeWhile P cs)) + length (QuoteMeta (dropWhile P cs))"
    by (metis QuoteMeta_append length_append)
  moreover have "length (QuoteMeta (tl xs)) \<le> length (QuoteMeta xs)" for xs
    by (cases xs) auto
  ultimately show ?thesis by (metis le_add2 le_trans)
qed

lemma replace_QuoteMeta:
  "ReplaceAllLiteralString pathParamRegex (QuoteMeta p) ''[^/]*'' = brace_subst p"
proof (induction p rule: brace_subst.induct)
  case 1
  then show ?case by simp
next
  case (2 c cs)
  show ?case
  proof (cases "c = CHR ''{''")
    case True
    show ?thesis
    proof (cases "CHR ''}'' \<in> set cs")
      case close: True
      have "length (QuoteMeta (tl (dropWhile (\<lambda>x. x \<noteq> CHR ''}'') cs))) < Suc (Suc (length (QuoteMeta cs)))"
        using length_QuoteMeta_tl_dropWhile [of "\<lambda>x. x \<noteq> CHR ''}''" cs] by simp
      then show ?thesis using True close 2
        by (simp add: special_braces match_placeholder)
    next
      case False
      then show ?thesis using True 2
        by (simp add: special_braces match_placeholder match_not_bs close_ne_bs)
    qed
  next
    case False
    show ?thesis
    proof (cases "special c")
      case sp: True
      show ?thesis
      proof (cases "c = bs")
        case True
        then show ?thesis using False sp 2
          by (simp add: match_no_open match_bs_QuoteMeta)
      next
        case nb: False
        then show ?thesis using False sp 2
          by (simp add: match_no_open match_not_bs)
      qed
    next
      case False
      then have "c \<noteq> bs" using special_bs by auto
      then show ?thesis using False \<open>c \<noteq> CHR ''{''\<close> 2
        by (simp add: match_not_bs)
    qed
  qed
qed

lemma pathToRegex_brace_subst: "pathToRegex p = brace_subst p"
  by (simp add: pathToRegex_def replace_QuoteMeta)

lemma brace_subst_no_close: "CHR ''}'' \<notin> set p \<Longrightarrow> brace_subst p = QuoteMeta p"
  by (induction p) auto

lemma brace_subst_no_open:
  "CHR ''{'' \<notin> set pre \<Longrightarrow> brace_subst (pre @ s) = QuoteMeta pre @ brace_subst s"
  by (induction pre) auto

lemma brace_subst_placeholder:
  assumes "CHR ''}'' \<notin> set a"
  shows "brace_subst (CHR ''{'' # a @ CHR ''}'' # s) = ''[^/]*'' @ brace_subst s"
proof -
  have "dropWhile (\<lambda>x. x \<noteq> CHR ''}'') (a @ CHR ''}'' # s) = CHR ''}'' # s"
    using assms by (induction a) auto
  then show ?thesis by simp
qed

lemma nested_open_suffix: "nested_open v \<Longrightarrow> nested_open (u @ v)"
  by (induction u) auto

lemma spec_agrees: "\<not> nested_open p \<Longrightarrow> spec_pathToRegex p = brace_subst p"
proof (induction p rule: brace_subst.induct)
  case 1
  then show ?case by simp
next
  case (2 c cs)
  let ?P = "\<lambda>x. x \<noteq> CHR ''{'' \<and> x \<noteq> CHR ''}''" and ?Q = "\<lambda>x. x \<noteq> CHR ''}''"
  show ?case
  proof (cases "c = CHR ''{'' \<and> CHR ''}'' \<in> set cs")
    case True
    then have flat: "CHR ''{'' \<notin> set (takeWhile ?Q cs)" and rest: "\<not> nested_open cs"
      using "2.prems" by (auto split: if_splits)
    have same: "dropWhile ?P cs = dropWhile ?Q cs"
      using flat by (induction cs) auto
    have cs: "cs = takeWhile ?Q cs @ CHR ''}'' # tl (dropWhile ?Q cs)"
      using True split_at_close by fastforce
    then have dq: "dropWhile ?Q cs = CHR ''}'' # tl (dropWhile ?Q cs)"
      by (metis (mono_tags, lifting) append_eq_conv_conj takeWhile_dropWhile_id same_append_eq)
    have "nested_open cs" if "nested_open (tl (dropWhile ?Q cs))"
      using that nested_open_suffix [of "tl (dropWhile ?Q cs)" "takeWhile ?Q cs @ [CHR ''}'']"] cs
      by simp
    then have "\<not> nested_open (tl (dropWhile ?Q cs))" using rest by blast
    then have "spec_pathToRegex (tl (dropWhile ?Q cs)) = brace_subst (tl (dropWhile ?Q cs))"
      using True "2.IH"(1) by simp
    moreover have "hd (dropWhile ?Q cs) = CHR ''}''" "dropWhile ?Q cs \<noteq> []"
      using dq by (metis list.sel(1), metis list.distinct(1))
    ultimately show ?thesis using True same by (simp add: Let_def)
  next
    case False
    then have rest: "\<not> nested_open cs" using "2.prems" by (auto split: if_splits)
    have "\<not> (c = CHR ''{'' \<and> dropWhile ?P cs \<noteq> [] \<and> hd (dropWhile ?P cs) = CHR ''}'')"
    proof
      assume h: "c = CHR ''{'' \<and> dropWhile ?P cs \<noteq> [] \<and> hd (dropWhile ?P cs) = CHR ''}''"
      then have "hd (dropWhile ?P cs) \<in> set (dropWhile ?P cs)" by (intro hd_in_set) blast
      then have "CHR ''}'' \<in> set cs" using h by (metis set_dropWhileD)
      then show False using False h by simp
    qed
    then show ?thesis using False rest "2.IH"(2) by (auto simp add: Let_def)
  qed
qed

lemma no_token_literal:
  assumes "\<not> (\<exists>u v w. p = u @ ''{'' @ v @ ''}'' @ w \<and> CHR ''{'' \<notin> set v \<and> CHR ''}'' \<notin> set v)"
  shows "brace_subst p = QuoteMeta p"
  using assms
proof (induction p)
  case Nil
  then show ?case by simp
next
  case (Cons c cs)
  have tail: "\<not> (\<exists>u v w. cs = u @ ''{'' @ v @ ''}'' @ w \<and> CHR ''{'' \<notin> set v \<and> CHR ''}'' \<notin> set v)"
  proof
    assume "\<exists>u v w. cs = u @ ''{'' @ v @ ''}'' @ w \<and> CHR ''{'' \<notin> set v \<and> CHR ''}'' \<notin> set v"
    then obtain u v w where "cs = u @ ''{'' @ v @ ''}'' @ w" "CHR ''{'' \<notin> set v" "CHR ''}'' \<notin> set v"
      by blast
    then have "c # cs = (c # u) @ ''{'' @ v @ ''}'' @ w \<and> CHR ''{'' \<notin> set v \<and> CHR ''}'' \<notin> set v"
      by simp
    then show False using Cons.prems by blast
  qed
  have "\<not> (c = CHR ''{'' \<and> CHR ''}'' \<in> set cs)"
  proof
    assume h: "c = CHR ''{'' \<and> CHR ''}'' \<in> set cs"
    let ?Q = "\<lambda>x. x \<noteq> CHR ''}''"
    let ?body = "takeWhile ?Q cs" and ?t = "tl (dropWhile ?Q cs)"
    have cs: "cs = ?body @ CHR ''}'' # ?t" using h split_at_close by fastforce
    have nc: "CHR ''}'' \<notin> set ?body" by (auto dest: set_takeWhileD)
    have "\<exists>x y. c # ?body = x @ CHR ''{'' # y \<and> CHR ''{'' \<notin> set y"
      using h split_list_last [of "CHR ''{''" "c # ?body"] by auto
    then obtain x y where xy: "c # ?body = x @ CHR ''{'' # y" "CHR ''{'' \<notin> set y" by blast
    then have "set y \<subseteq> set (c # ?body)" by (metis set_append set_subset_Cons Un_upper2 order_trans)
    then have "CHR ''}'' \<notin> set y" using nc h by auto
    moreover have "c # cs = x @ ''{'' @ y @ ''}'' @ ?t"
      using xy(1) cs by (metis append_Cons append_Nil append_assoc)
    ultimately show False using Cons.prems xy(2) by blast
  qed
  then show ?case using Cons.IH [OF tail] by auto
qed

lemma compile_QuoteMeta: "compile (QuoteMeta p) = Some (map Lit p)"
proof (induction p)
  case Nil
  then show ?case by simp
next
  case (Cons c p)
  show ?case
  proof (cases "special c")
    case True
    then show ?thesis using Cons by simp
  next
    case False
    then have "c \<noteq> bs" "c \<noteq> CHR ''[''" "c \<noteq> CHR ''{''" "c \<noteq> CHR ''}''"
      by (auto simp: special_def)
    then show ?thesis using False Cons by simp
  qed
qed

lemma accepts_literal: "accepts (map Lit p) s \<longleftrightarrow> s = p"
proof (induction p arbitrary: s)
  case Nil
  then show ?case by simp
next
  case (Cons c p)
  then show ?case by (cases s) auto
qed

lemma brace_subst_after_placeholder:
  assumes "CHR ''}'' \<notin> set a"
  shows "brace_subst (pre @ CHR ''{'' # a @ CHR ''}'' # rest) =
           brace_subst (pre @ CHR ''{'' # a @ [CHR ''}'']) @ brace_subst rest"
proof (induction pre rule: brace_subst.induct)
  case 1
  show ?case
    using brace_subst_placeholder [OF assms, of rest] brace_subst_placeholder [OF assms, of "[]"]
    by simp
next
  case (2 c cs)
  let ?Q = "\<lambda>x. x \<noteq> CHR ''}''"
  show ?case
  proof (cases "c = CHR ''{''")
    case False
    then show ?thesis using 2 by simp
  next
    case True
    show ?thesis
    proof (cases "CHR ''}'' \<in> set cs")
      case close: True
      have d: "dropWhile ?Q (cs @ ys) = dropWhile ?Q cs @ ys" for ys
        using close by (simp add: dropWhile_append1)
      have ne: "dropWhile ?Q cs \<noteq> []" using close by (simp add: dropWhile_eq_Nil_conv)
      have t: "tl (dropWhile ?Q (cs @ ys)) = tl (dropWhile ?Q cs) @ ys" for ys
        using d ne by simp
      have "brace_subst (tl (dropWhile ?Q cs) @ CHR ''{'' # a @ CHR ''}'' # rest) =
          brace_subst (tl (dropWhile ?Q cs) @ CHR ''{'' # a @ [CHR ''}'']) @ brace_subst rest"
        using "2.IH"(1) True close by simp
      then show ?thesis using True close t by simp
    next
      case False
      have d: "dropWhile ?Q (cs @ CHR ''{'' # a @ CHR ''}'' # ys) = CHR ''}'' # ys" for ys
      proof -
        have "dropWhile ?Q (cs @ zs) = dropWhile ?Q zs" for zs
          using False by (induction cs) auto
        moreover have "dropWhile ?Q (a @ CHR ''}'' # ys) = CHR ''}'' # ys"
          using assms by (induction a) auto
        ultimately show ?thesis by simp
      qed
      show ?thesis using True d [of rest] d [of "[]"] by simp
    qed
  qed
qed

lemma brace_subst_ends_with_wildcard:
  assumes "CHR ''}'' \<notin> set a"
  shows "\<exists>x. brace_subst (pre @ CHR ''{'' # a @ [CHR ''}'']) = x @ ''[^/]*''"
proof (induction pre rule: brace_subst.induct)
  case 1
  show ?case using brace_subst_placeholder [OF assms, of "[]"] by simp
next
  case (2 c cs)
  let ?Q = "\<lambda>x. x \<noteq> CHR ''}''"
  show ?case
  proof (cases "c = CHR ''{''")
    case False
    then obtain x where "brace_subst (cs @ CHR ''{'' # a @ [CHR ''}'']) = x @ ''[^/]*''"
      using "2.IH"(2) by blast
    then have "brace_subst ((c # cs) @ CHR ''{'' # a @ [CHR ''}'']) = (QuoteMeta [c] @ x) @ ''[^/]*''"
      using False by simp
    then show ?thesis by blast
  next
    case True
    show ?thesis
    proof (cases "CHR ''}'' \<in> set cs")
      case close: True
      have ne: "dropWhile ?Q cs \<noteq> []" using close by (simp add: dropWhile_eq_Nil_conv)
      have t: "tl (dropWhile ?Q (cs @ ys)) = tl (dropWhile ?Q cs) @ ys" for ys
        using close ne by (simp add: dropWhile_append1)
      obtain x where "brace_subst (tl (dropWhile ?Q cs) @ CHR ''{'' # a @ [CHR ''}'']) = x @ ''[^/]*''"
        using "2.IH"(1) True close by blast
      then have "brace_subst ((c # cs) @ CHR ''{'' # a @ [CHR ''}'']) = (''[^/]*'' @ x) @ ''[^/]*''"
        using True close t by simp
      then show ?thesis by blast
    next
      case False
      have "dropWhile ?Q (cs @ CHR ''{'' # a @ [CHR ''}'']) = [CHR ''}'']"
      proof -
        have "dropWhile ?Q (cs @ zs) = dropWhile ?Q zs" for zs
          using False by (induction cs) auto
        moreover have "dropWhile ?Q (a @ [CHR ''}'']) = [CHR ''}'']"
          using assms by (induction a) auto
        ultimately show ?thesis by simp
      qed
      then have "brace_subst ((c # cs) @ CHR ''{'' # a @ [CHR ''}'']) = [] @ ''[^/]*''"
        using True by simp
      then show ?thesis by blast
    qed
  qed
qed


subsection \<open>Claims about the translator\<close>

text \<open>
  C1, as amended. For every template, the translator returns the template with every
  special byte escaped, except that each span from an opening brace to the nearest
  closing brace behind it is replaced as a unit by the wildcard \<^verbatim>\<open>[^/]*\<close>; the spans
  are taken from left to right and may contain further opening braces. On a template
  where no span contains a further opening brace this is the replacement of every
  placeholder token (a brace-delimited span without braces inside). A template without a
  placeholder token translates to its escaped form.
\<close>

theorem pathToRegex_replaces_brace_spans:
  "pathToRegex p = brace_subst p \<and>
   (\<not> nested_open p \<longrightarrow> pathToRegex p = spec_pathToRegex p) \<and>
   ((\<nexists>u v w. p = u @ ''{'' @ v @ ''}'' @ w \<and> CHR ''{'' \<notin> set v \<and> CHR ''}'' \<notin> set v)
      \<longrightarrow> pathToRegex p = QuoteMeta p)"
  using pathToRegex_brace_subst [of p] spec_agrees [of p] no_token_literal [of p]
  by simp

text \<open>The hypotheses of C1 hold of two templates, with the patterns they produce.\<close>

theorem pathToRegex_replaces_brace_spans_witness:
  "\<not> nested_open ''/books/{id}.json'' \<and>
   pathToRegex ''/books/{id}.json'' = spec_pathToRegex ''/books/{id}.json'' \<and>
   spec_pathToRegex ''/books/{id}.json'' = ''/books/[^/]*'' @ [bs] @ ''.json'' \<and>
   (\<nexists>u v w. ''/v1/a.b'' = u @ ''{'' @ v @ ''}'' @ w \<and> CHR ''{'' \<notin> set v \<and> CHR ''}'' \<notin> set v) \<and>
   pathToRegex ''/v1/a.b'' = QuoteMeta ''/v1/a.b'' \<and>
   QuoteMeta ''/v1/a.b'' = ''/v1/a'' @ [bs] @ ''.b''"
proof -
  have flat: "\<not> nested_open ''/books/{id}.json''" by simp
  have none: "\<nexists>u v w. ''/v1/a.b'' = u @ ''{'' @ v @ ''}'' @ w \<and> CHR ''{'' \<notin> set v \<and> CHR ''}'' \<notin> set v"
  proof
    assume "\<exists>u v w. ''/v1/a.b'' = u @ ''{'' @ v @ ''}'' @ w \<and> CHR ''{'' \<notin> set v \<and> CHR ''}'' \<notin> set v"
    then obtain u v w where "''/v1/a.b'' = u @ ''{'' @ v @ ''}'' @ w" by blast
    then have "set ''/v1/a.b'' = set (u @ ''{'' @ v @ ''}'' @ w)" by (rule arg_cong)
    then have "CHR ''{'' \<in> set ''/v1/a.b''" by simp
    then show False by simp
  qed
  have a: "pathToRegex ''/books/{id}.json'' = spec_pathToRegex ''/books/{id}.json''"
    using pathToRegex_replaces_brace_spans [of "''/books/{id}.json''"] flat by blast
  have b: "pathToRegex ''/v1/a.b'' = QuoteMeta ''/v1/a.b''"
    using pathToRegex_replaces_brace_spans [of "''/v1/a.b''"] none by blast
  have c: "spec_pathToRegex ''/books/{id}.json'' = ''/books/[^/]*'' @ [bs] @ ''.json''"
    by (simp add: special_def bs_def)
  have d: "QuoteMeta ''/v1/a.b'' = ''/v1/a'' @ [bs] @ ''.b''"
    by (simp add: special_def bs_def)
  show ?thesis using flat none a b c d by blast
qed

text \<open>
  C1 as it is stated fails on a template with an opening brace inside a span: the
  token of \<^verbatim>\<open>{a{b}\<close> is \<^verbatim>\<open>{b}\<close>, and the translator replaces the whole template.
\<close>

theorem nested_brace_counterexample:
  "pathToRegex ''{a{b}'' = ''[^/]*'' \<and>
   spec_pathToRegex ''{a{b}'' = [bs] @ ''{a[^/]*'' \<and>
   pathToRegex ''{a{b}'' \<noteq> spec_pathToRegex ''{a{b}''"
  by (simp add: pathToRegex_def pathParamRegex_eq special_def bs_def)

text \<open>
  C6. The template \<^verbatim>\<open>/books/{id}.json\<close> translates to \<^verbatim>\<open>/books/[^/]*\.json\<close>; this
  pattern matches the path \<^verbatim>\<open>/books/123.json\<close> and does not match
  \<^verbatim>\<open>/books/123/extra.json\<close>, whether the whole path or a part of it has to match.
\<close>

theorem books_pattern_matches:
  "pathToRegex ''/books/{id}.json'' = ''/books/[^/]*'' @ [bs] @ ''.json'' \<and>
   matches_whole (pathToRegex ''/books/{id}.json'') ''/books/123.json'' \<and>
   \<not> matches_whole (pathToRegex ''/books/{id}.json'') ''/books/123/extra.json'' \<and>
   matches_part (pathToRegex ''/books/{id}.json'') ''/books/123.json'' \<and>
   \<not> matches_part (pathToRegex ''/books/{id}.json'') ''/books/123/extra.json''"
proof -
  have p: "pathToRegex ''/books/{id}.json'' = ''/books/[^/]*'' @ [bs] @ ''.json''"
    by (simp add: pathToRegex_def pathParamRegex_eq special_def bs_def)
  have c: "compile (''/books/[^/]*'' @ [bs] @ ''.json'') =
      Some (map Lit ''/books/'' @ [StarNot (CHR ''/'')] @ map Lit ''.json'')"
    by (simp add: special_def bs_def digit_def)
  show ?thesis
    unfolding p matches_whole_def matches_part_def c by simp
qed

text \<open>
  C7. Two adjacent placeholders produce two wildcards, one for each. For every template
  that holds \<^verbatim>\<open>{a}{b}\<close>, whatever stands before and behind it, the translation is
  that of the template up to the end of the first placeholder, which ends with the
  wildcard of that placeholder, then the wildcard of the second placeholder, then the
  translation of what follows. Behind a prefix without an opening brace this is the
  escaped prefix, the wildcard twice, and the translation of what follows.
\<close>

theorem adjacent_placeholders:
  assumes "CHR ''}'' \<notin> set a" and "CHR ''}'' \<notin> set b"
  shows "pathToRegex (pre @ ''{'' @ a @ ''}'' @ ''{'' @ b @ ''}'' @ post) =
           pathToRegex (pre @ ''{'' @ a @ ''}'') @ ''[^/]*'' @ pathToRegex post \<and>
         (\<exists>x. pathToRegex (pre @ ''{'' @ a @ ''}'') = x @ ''[^/]*'') \<and>
         (CHR ''{'' \<notin> set pre \<longrightarrow>
            pathToRegex (pre @ ''{'' @ a @ ''}'' @ ''{'' @ b @ ''}'' @ post) =
              QuoteMeta pre @ ''[^/]*'' @ ''[^/]*'' @ pathToRegex post)"
proof -
  have "brace_subst (pre @ CHR ''{'' # a @ CHR ''}'' # CHR ''{'' # b @ CHR ''}'' # post) =
      brace_subst (pre @ CHR ''{'' # a @ [CHR ''}'']) @ brace_subst (CHR ''{'' # b @ CHR ''}'' # post)"
    by (rule brace_subst_after_placeholder [OF assms(1)])
  also have "brace_subst (CHR ''{'' # b @ CHR ''}'' # post) = ''[^/]*'' @ brace_subst post"
    by (rule brace_subst_placeholder [OF assms(2)])
  finally have main: "pathToRegex (pre @ ''{'' @ a @ ''}'' @ ''{'' @ b @ ''}'' @ post) =
      pathToRegex (pre @ ''{'' @ a @ ''}'') @ ''[^/]*'' @ pathToRegex post"
    by (simp add: pathToRegex_brace_subst del: brace_subst.simps)
  have ends: "\<exists>x. pathToRegex (pre @ ''{'' @ a @ ''}'') = x @ ''[^/]*''"
    using brace_subst_ends_with_wildcard [OF assms(1), of pre]
    by (simp add: pathToRegex_brace_subst del: brace_subst.simps)
  have clean: "pathToRegex (pre @ ''{'' @ a @ ''}'' @ ''{'' @ b @ ''}'' @ post) =
      QuoteMeta pre @ ''[^/]*'' @ ''[^/]*'' @ pathToRegex post" if "CHR ''{'' \<notin> set pre"
    using that assms
    by (simp add: pathToRegex_brace_subst brace_subst_no_open brace_subst_placeholder
           del: brace_subst.simps)
  show ?thesis using main ends clean by blast
qed

text \<open>
  Two instances of C7: the placeholders of its statement alone, and behind an earlier
  placeholder.
\<close>

theorem adjacent_placeholders_witness:
  "CHR ''}'' \<notin> set ''a'' \<and> CHR ''}'' \<notin> set ''b'' \<and>
   pathToRegex ''/{x}/{a}{b}/y'' = ''/[^/]*/[^/]*[^/]*/y'' \<and>
   CHR ''{'' \<notin> set '''' \<and>
   pathToRegex ''{a}{b}'' = ''[^/]*[^/]*''"
proof -
  have h: "CHR ''}'' \<notin> set ''a''" "CHR ''}'' \<notin> set ''b''" "CHR ''{'' \<notin> set ''''"
    by simp_all
  have y: "pathToRegex ''/y'' = ''/y''" "pathToRegex '''' = ''''"
    "pathToRegex ''/{x}/{a}'' = ''/[^/]*/[^/]*''"
    by (simp_all add: pathToRegex_def pathParamRegex_eq special_def bs_def)
  have "pathToRegex (''/{x}/'' @ ''{'' @ ''a'' @ ''}'' @ ''{'' @ ''b'' @ ''}'' @ ''/y'') =
      pathToRegex (''/{x}/'' @ ''{'' @ ''a'' @ ''}'') @ ''[^/]*'' @ pathToRegex ''/y''"
    using adjacent_placeholders [OF h(1) h(2), of "''/{x}/''" "''/y''"] by (rule conjunct1)
  moreover have "pathToRegex ('''' @ ''{'' @ ''a'' @ ''}'' @ ''{'' @ ''b'' @ ''}'' @ '''') =
      QuoteMeta '''' @ ''[^/]*'' @ ''[^/]*'' @ pathToRegex ''''"
    using adjacent_placeholders [OF h(1) h(2), of "''''" "''''"] h(3) by blast
  ultimately show ?thesis using h y by simp
qed

text \<open>
  C10. A template without a closing brace is translated to its escaped form, nothing
  is replaced by a wildcard, and the pattern matches the text of the template and
  nothing else.
\<close>

theorem unclosed_brace_is_literal:
  assumes "CHR ''}'' \<notin> set p"
  shows "pathToRegex p = QuoteMeta p \<and>
         compile (pathToRegex p) = Some (map Lit p) \<and>
         (\<forall>s. matches_whole (pathToRegex p) s \<longleftrightarrow> s = p)"
  using assms
  by (simp add: pathToRegex_brace_subst brace_subst_no_close compile_QuoteMeta
        matches_whole_def accepts_literal)

text \<open>An instance of C10 with an opening brace that is never closed.\<close>

theorem unclosed_brace_is_literal_witness:
  "CHR ''}'' \<notin> set ''/a/{id'' \<and>
   pathToRegex ''/a/{id'' = ''/a/'' @ [bs] @ ''{id'' \<and>
   matches_whole (pathToRegex ''/a/{id'') ''/a/{id'' \<and>
   \<not> matches_whole (pathToRegex ''/a/{id'') ''/a/7''"
proof -
  have h: "CHR ''}'' \<notin> set ''/a/{id''" by simp
  have q: "QuoteMeta ''/a/{id'' = ''/a/'' @ [bs] @ ''{id''" by (simp add: special_def bs_def)
  have t: "pathToRegex ''/a/{id'' = QuoteMeta ''/a/{id''"
    and m: "\<And>s. matches_whole (pathToRegex ''/a/{id'') s \<longleftrightarrow> s = ''/a/{id''"
    using unclosed_brace_is_literal [OF h] by blast+
  have "matches_whole (pathToRegex ''/a/{id'') ''/a/{id''"
    and "\<not> matches_whole (pathToRegex ''/a/{id'') ''/a/7''"
    unfolding m by simp_all
  then show ?thesis using h q t by simp
qed

subsection \<open>The classifier and the enumerator as list functions\<close>

lemma range_keys_eq: "range_keys m ks = ks @ map fst m"
  by (induction m ks rule: range_keys.induct) simp_all

lemma classes_loop_eq: "classes_loop statuses classes = classes @ map class_of statuses"
  by (induction statuses arbitrary: classes) (simp_all add: class_of_def)

lemma toRspClasses_Some:
  "toRspClasses (Some r) = map class_of (sort (map fst (StatusCodeResponses r)))"
  by (simp add: range_keys_eq classes_loop_eq)

lemma sort_go_map: "go_map m \<Longrightarrow> sort (map fst m) = sorted_list_of_set (fst ` set m)"
  by (simp add: go_map_def sorted_list_of_set_sort_remdups distinct_remdups_id flip: set_map)

lemma add_route_rule:
  "add_route p (pathToRegex p) (method_name meth) operation routes =
     routes @ map rule_of (case operation of None \<Rightarrow> [] | Some oper \<Rightarrow> [(p, meth, oper)])"
  by (cases operation) (simp_all add: add_route_def rule_of_def mkRouteSpec_def toReqMatch_def)

lemma path_body_eq: "path_body m p routes = routes @ map rule_of (declared_at m p)"
  unfolding path_body_def Let_def declared_at_def canonical_methods_def
  by (simp add: add_route_rule [of p DELETE, simplified] add_route_rule [of p GET, simplified]
        add_route_rule [of p HEAD, simplified] add_route_rule [of p OPTIONS, simplified]
        add_route_rule [of p PATCH, simplified] add_route_rule [of p POST, simplified]
        add_route_rule [of p PUT, simplified])

lemma routes_loop_eq:
  "routes_loop m ps routes = routes @ map rule_of (concat (map (declared_at m) ps))"
  by (induction ps arbitrary: routes) (simp_all add: path_body_eq)

lemma openAPI_routes_sort:
  "openAPI_routes sw =
     map rule_of (concat (map (declared_at (path_map sw)) (sort (map fst (path_map sw)))))"
  by (cases "Paths sw") (simp_all add: openAPI_routes_def path_map_def routes_loop_eq range_keys_eq)

lemma openAPI_routes_declared:
  "go_map (path_map sw) \<Longrightarrow> openAPI_routes sw = map rule_of (declared_ops sw)"
  by (simp add: openAPI_routes_sort declared_ops_def sort_go_map)

lemma map_index_member:
  assumes "go_map m"
  shows "(p, item) \<in> set m \<longleftrightarrow> p \<in> fst ` set m \<and> map_index m p = item"
proof -
  have d: "distinct (map fst m)" using assms by (simp add: go_map_def)
  show ?thesis
  proof
    assume "(p, item) \<in> set m"
    then show "p \<in> fst ` set m \<and> map_index m p = item"
      using d by (force simp: map_index_def)
  next
    assume h: "p \<in> fst ` set m \<and> map_index m p = item"
    then obtain v where v: "(p, v) \<in> set m" by auto
    then have "map_of m p = Some v" using d by simp
    then show "(p, item) \<in> set m" using h v by (simp add: map_index_def)
  qed
qed

lemma set_canonical: "set canonical_methods = UNIV"
proof -
  have "meth \<in> set canonical_methods" for meth
    by (cases meth) (simp_all add: canonical_methods_def)
  then show ?thesis by blast
qed

lemma set_declared_at:
  "set (declared_at m p) =
     {(q, meth, oper). q = p \<and> operation_of (map_index m p) meth = Some oper}"
  by (auto simp: declared_at_def set_canonical split: option.splits)

lemma set_declared_ops:
  assumes "go_map (path_map sw)"
  shows "set (declared_ops sw) =
     {(p, meth, oper). \<exists>item. (p, item) \<in> set (path_map sw) \<and> operation_of item meth = Some oper}"
proof -
  have "set (declared_ops sw) =
      {(p, meth, oper). p \<in> fst ` set (path_map sw) \<and>
         operation_of (map_index (path_map sw) p) meth = Some oper}"
    by (auto simp: declared_ops_def set_declared_at)
  also have "\<dots> = {(p, meth, oper). \<exists>item. (p, item) \<in> set (path_map sw) \<and>
      operation_of item meth = Some oper}"
    using map_index_member [OF assms] by auto
  finally show ?thesis .
qed

lemma sorted_declared_methods:
  "sorted_wrt (\<lambda>a b. rank a < rank b) ms \<Longrightarrow>
   sorted_wrt before
     (concat (map (\<lambda>meth. case f meth of None \<Rightarrow> [] | Some oper \<Rightarrow> [(p, meth, oper)]) ms))"
proof (induction ms)
  case Nil
  then show ?case by simp
next
  case (Cons a ms)
  then show ?case
    by (cases "f a") (auto simp: sorted_wrt_append before_def split: option.splits)
qed

lemma sorted_declared_at: "sorted_wrt before (declared_at m p)"
  unfolding declared_at_def
  by (rule sorted_declared_methods) (simp add: canonical_methods_def)

lemma sorted_declared_paths:
  "sorted_wrt (<) ps \<Longrightarrow> sorted_wrt before (concat (map (declared_at m) ps))"
proof (induction ps)
  case Nil
  then show ?case by simp
next
  case (Cons p ps)
  then show ?case
    by (auto simp: sorted_wrt_append sorted_declared_at set_declared_at) (auto simp: before_def)
qed

lemma sorted_declared_ops: "sorted_wrt before (declared_ops sw)"
  unfolding declared_ops_def
  by (rule sorted_declared_paths) (simp add: strict_sorted_iff flip: sorted_wrt_map)

lemma method_name_no_space: "CHR '' '' \<notin> set (method_name meth)"
  by (cases meth)
    (simp_all add: MethodDelete_def MethodGet_def MethodHead_def MethodOptions_def
      MethodPatch_def MethodPost_def MethodPut_def)

lemma method_name_inj: "method_name a = method_name b \<Longrightarrow> a = b"
  by (cases a; cases b)
    (simp_all add: MethodDelete_def MethodGet_def MethodHead_def MethodOptions_def
      MethodPatch_def MethodPost_def MethodPut_def)

lemma split_at_space:
  assumes "c \<notin> set u" and "c \<notin> set v" and "u @ c # x = v @ c # y"
  shows "u = v \<and> x = y"
  using assms
proof (induction u arbitrary: v)
  case Nil
  then show ?case by (cases v) auto
next
  case (Cons a u)
  then show ?case by (cases v) auto
qed

lemma route_name_inj:
  assumes "method_name a @ '' '' @ p = method_name b @ '' '' @ q"
  shows "a = b \<and> p = q"
proof -
  have "method_name a = method_name b \<and> p = q"
    using split_at_space [OF method_name_no_space method_name_no_space, of a p b q] assms
    by simp
  then show ?thesis using method_name_inj by blast
qed

lemma Name_rule_of: "Name (rule_of (p, meth, oper)) = method_name meth @ '' '' @ p"
  by (simp add: rule_of_def)

lemma sorted_wrt_distinct_map:
  assumes "sorted_wrt R xs" and "\<And>x y. R x y \<Longrightarrow> f x \<noteq> f y"
  shows "distinct (map f xs)"
  using assms by (induction xs) auto

lemma distinct_keys_declared:
  "distinct (map (\<lambda>t. (fst t, fst (snd t))) (declared_ops sw))"
  by (rule sorted_wrt_distinct_map [OF sorted_declared_ops]) (auto simp: before_def)

lemma distinct_names_declared: "distinct (map (Name \<circ> rule_of) (declared_ops sw))"
proof -
  have "Name (rule_of s) \<noteq> Name (rule_of t)" if "before s t" for s t :: "string \<times> http_method \<times> 'a Operation"
  proof -
    obtain p m x q n y where st: "s = (p, m, x)" "t = (q, n, y)" by (metis prod_cases3)
    then have "p \<noteq> q \<or> m \<noteq> n" using that by (auto simp: before_def)
    then show ?thesis using route_name_inj [of m p n q] st by (auto simp: Name_rule_of)
  qed
  then show ?thesis
    using sorted_wrt_distinct_map [OF sorted_declared_ops, of "Name \<circ> rule_of" sw] by simp
qed

lemma filter_distinct_key:
  assumes "distinct (map f xs)" and "x \<in> set xs"
  shows "filter (\<lambda>y. f y = f x) xs = [x]"
  using assms
proof (induction xs)
  case Nil
  then show ?case by simp
next
  case (Cons a xs)
  show ?case
  proof (cases "a = x")
    case True
    then have "f x \<notin> f ` set xs" using Cons.prems by simp
    then have "filter (\<lambda>y. f y = f x) xs = []"
      unfolding filter_empty_conv by (metis imageI)
    then show ?thesis using True by simp
  next
    case False
    then have "x \<in> set xs" using Cons.prems by simp
    then have "f a \<noteq> f x" using Cons.prems by force
    then show ?thesis using Cons \<open>x \<in> set xs\<close> by simp
  qed
qed

lemma sort_same_map:
  assumes "go_map m1" and "go_map m2" and "same_map R m1 m2"
  shows "sort (map fst m1) = sort (map fst m2)"
proof -
  have "fst ` set m1 = fst ` set m2" using assms(3) by (simp add: same_map_def)
  then show ?thesis using sort_go_map [OF assms(1)] sort_go_map [OF assms(2)] by simp
qed

lemma same_map_lookup:
  assumes "same_map R m1 m2" and "(k, v) \<in> set m1"
  shows "\<exists>w. map_of m2 k = Some w \<and> R v w"
proof -
  have "case map_of m2 k of None \<Rightarrow> False | Some w \<Rightarrow> R v w"
    using assms by (auto simp: same_map_def list_all_iff)
  then show ?thesis by (cases "map_of m2 k") auto
qed

lemma toRspClasses_same:
  assumes "go_map (StatusCodeResponses r1)" and "go_map (StatusCodeResponses r2)"
    and "same_responses r1 r2"
  shows "toRspClasses (Some r1) = toRspClasses (Some r2)"
proof -
  have "same_map (=) (StatusCodeResponses r1) (StatusCodeResponses r2)"
    using assms(3) by (simp add: same_responses_def)
  from sort_same_map [OF assms(1) assms(2) this] show ?thesis
    by (simp add: toRspClasses_Some del: toRspClasses.simps)
qed

lemma add_route_same:
  assumes "same_operation o1 o2" and "wf_operation o1" and "wf_operation o2"
  shows "add_route p re n o1 routes = add_route p re n o2 routes"
proof (cases o1)
  case None
  then show ?thesis using assms(1) by (cases o2) (simp_all add: same_operation_def)
next
  case (Some a)
  then obtain b where b: "o2 = Some b" using assms(1) by (cases o2) (simp_all add: same_operation_def)
  have rel: "rel_option same_responses (Responses a) (Responses b)"
    using assms(1) Some b by (simp add: same_operation_def)
  have "toRspClasses (Responses a) = toRspClasses (Responses b)"
  proof (cases "Responses a")
    case None
    then show ?thesis using rel by (cases "Responses b") simp_all
  next
    case ra: (Some r1)
    then obtain r2 where rb: "Responses b = Some r2" using rel by (cases "Responses b") simp_all
    have "go_map (StatusCodeResponses r1)" "go_map (StatusCodeResponses r2)"
      using assms(2,3) Some b ra rb by (simp_all add: wf_operation_def)
    moreover have "same_responses r1 r2" using rel ra rb by simp
    ultimately show ?thesis using ra rb toRspClasses_same by metis
  qed
  then show ?thesis using Some b by (simp add: add_route_def mkRouteSpec_def)
qed

lemma path_body_same:
  assumes "same_item (map_index m1 p) (map_index m2 p)"
    and "wf_item (map_index m1 p)" and "wf_item (map_index m2 p)"
  shows "path_body m1 p routes = path_body m2 p routes"
proof -
  let ?i = "map_index m1 p" and ?j = "map_index m2 p"
  have "add_route p re n (Delete ?i) rs = add_route p re n (Delete ?j) rs"
    "add_route p re n (Get ?i) rs = add_route p re n (Get ?j) rs"
    "add_route p re n (Head ?i) rs = add_route p re n (Head ?j) rs"
    "add_route p re n (Options ?i) rs = add_route p re n (Options ?j) rs"
    "add_route p re n (Patch ?i) rs = add_route p re n (Patch ?j) rs"
    "add_route p re n (Post ?i) rs = add_route p re n (Post ?j) rs"
    "add_route p re n (Put ?i) rs = add_route p re n (Put ?j) rs" for re n rs
    using assms by (auto simp: same_item_def wf_item_def intro: add_route_same)
  then show ?thesis by (simp add: path_body_def Let_def)
qed

lemma routes_loop_same:
  assumes "\<And>p. p \<in> set ps \<Longrightarrow>
      same_item (map_index m1 p) (map_index m2 p) \<and> wf_item (map_index m1 p) \<and>
      wf_item (map_index m2 p)"
  shows "routes_loop m1 ps routes = routes_loop m2 ps routes"
  using assms
proof (induction ps arbitrary: routes)
  case Nil
  then show ?case by simp
next
  case (Cons p ps)
  then have "path_body m1 p routes = path_body m2 p routes"
    by (intro path_body_same) simp_all
  then show ?case using Cons by simp
qed

lemma same_map_routes:
  assumes g1: "go_map m1" and g2: "go_map m2"
    and w1: "list_all (\<lambda>(k, item). wf_item item) m1"
    and w2: "list_all (\<lambda>(k, item). wf_item item) m2"
    and same: "same_map same_item m1 m2"
  shows "routes_loop m1 (sort (map fst m1)) [] = routes_loop m2 (sort (map fst m2)) []"
proof -
  have keys: "sort (map fst m1) = sort (map fst m2)"
    by (rule sort_same_map [OF g1 g2 same])
  have "same_item (map_index m1 p) (map_index m2 p) \<and> wf_item (map_index m1 p) \<and>
      wf_item (map_index m2 p)" if "p \<in> set (sort (map fst m1))" for p
  proof -
    have "p \<in> fst ` set m1" using that by simp
    then obtain v where v: "(p, v) \<in> set m1" by force
    then have i1: "map_index m1 p = v" using map_index_member [OF g1] by blast
    obtain w where w: "map_of m2 p = Some w" "same_item v w"
      using same_map_lookup [OF same v] by blast
    then have i2: "map_index m2 p = w" by (simp add: map_index_def)
    have "(p, w) \<in> set m2" using w(1) by (rule map_of_SomeD)
    then have "wf_item w" using w2 by (auto simp: list_all_iff)
    moreover have "wf_item v" using w1 v by (auto simp: list_all_iff)
    ultimately show ?thesis using i1 i2 w(2) by simp
  qed
  then have "routes_loop m1 (sort (map fst m1)) [] = routes_loop m2 (sort (map fst m1)) []"
    by (rule routes_loop_same)
  then show ?thesis using keys by simp
qed

lemma books_doc_keys:
  "sorted_list_of_set (fst ` set (path_map books_doc)) = [''/a/{id}'', ''/b'']"
proof -
  have "fst ` set (path_map books_doc) = set [''/b'', ''/a/{id}'']"
    by (simp add: books_doc_def path_map_def)
  then show ?thesis unfolding sorted_list_of_set_sort_remdups by simp
qed

lemma books_doc_declared:
  "declared_ops books_doc =
     [(''/a/{id}'', GET, \<lparr>Responses = Some \<lparr>Default = Some (), StatusCodeResponses = []\<rparr>\<rparr>),
      (''/b'', DELETE, \<lparr>Responses =
         Some \<lparr>Default = None, StatusCodeResponses = [(500, ()), (204, ())]\<rparr>\<rparr>),
      (''/b'', PUT, \<lparr>Responses = None\<rparr>)]"
  unfolding declared_ops_def books_doc_keys
  by (simp add: books_doc_def path_map_def declared_at_def canonical_methods_def map_index_def
        zero_PathItem_def)

lemma books_doc_go_map: "go_map (path_map books_doc)"
  by (simp add: books_doc_def path_map_def go_map_def)

lemma declared_rule_unique:
  assumes "go_map (path_map sw)" and "(p, item) \<in> set (path_map sw)"
    and "operation_of item m = Some oper"
  shows "filter (\<lambda>r. Name r = method_name m @ '' '' @ p) (openAPI_routes sw) =
           [rule_of (p, m, oper)]"
proof -
  have routes: "openAPI_routes sw = map rule_of (declared_ops sw)"
    by (rule openAPI_routes_declared [OF assms(1)])
  have "(p, m, oper) \<in> set (declared_ops sw)"
    using assms set_declared_ops [OF assms(1)] by blast
  then have mem: "rule_of (p, m, oper) \<in> set (openAPI_routes sw)" by (simp add: routes)
  have "distinct (map Name (openAPI_routes sw))"
    using distinct_names_declared [of sw] by (simp add: routes)
  from filter_distinct_key [OF this mem] show ?thesis by (simp add: Name_rule_of)
qed

subsection \<open>Claims about the response classifier\<close>

text \<open>
  C2. The classes are emitted for the declared status codes in ascending order, and
  the class of a code is a failure class exactly if the code is 500 or greater. Nothing
  but the codes is consulted: the default response and what the document says about
  each response can be replaced by anything. The classes of 404 and 200 are not failure
  classes, those of 500 and 503 are.
\<close>

theorem isFailure_iff_server_error:
  "list_all2 (\<lambda>status c. IsFailure c \<longleftrightarrow> 500 \<le> status)
     (sort (map fst (StatusCodeResponses r))) (toRspClasses (Some r)) \<and>
   toRspClasses (Some r) =
     toRspClasses (Some \<lparr>Default = d, StatusCodeResponses = map (\<lambda>(k, v). (k, f v)) (StatusCodeResponses r)\<rparr>) \<and>
   map IsFailure (toRspClasses
       (Some \<lparr>Default = e, StatusCodeResponses = [(404, a), (500, b), (503, c), (200, a)]\<rparr>)) =
     [False, False, True, True]"
proof -
  have "list_all2 (\<lambda>status c. IsFailure c \<longleftrightarrow> 500 \<le> status) xs (map class_of xs)" for xs
    by (simp add: list_all2_map2 list.rel_refl class_of_def)
  moreover have "fst \<circ> (\<lambda>(k, v). (k, f v)) = (fst :: int \<times> 'a \<Rightarrow> int)"
    by (auto simp: fun_eq_iff)
  ultimately show ?thesis
    by (simp add: toRspClasses_Some class_of_def del: toRspClasses.simps)
qed

text \<open>
  C4, as amended. For the declared status codes of an operation the classifier returns
  one class per code, in ascending order of the codes, and no class covers two codes;
  both bounds of a class are the code reduced modulo \<open>2 ^ 32\<close>. When every code lies
  between 0 and \<open>2 ^ 32 - 1\<close>, both bounds are the declared code.
\<close>

theorem one_class_per_status:
  assumes "go_map (StatusCodeResponses r)"
  shows "toRspClasses (Some r) =
           map (\<lambda>status.
                  \<lparr>Condition_rsp =
                     \<lparr>Status = \<lparr>Min_u32 = word_of_int status, Max_u32 = word_of_int status\<rparr>\<rparr>,
                   IsFailure = (500 \<le> status)\<rparr>)
             (sorted_list_of_set (fst ` set (StatusCodeResponses r))) \<and>
         length (toRspClasses (Some r)) = card (fst ` set (StatusCodeResponses r)) \<and>
         list_all (\<lambda>c. Min_u32 (Status (Condition_rsp c)) = Max_u32 (Status (Condition_rsp c)))
           (toRspClasses (Some r)) \<and>
         ((\<forall>status \<in> fst ` set (StatusCodeResponses r). 0 \<le> status \<and> status < 2 ^ 32) \<longrightarrow>
            map (\<lambda>c. uint (Min_u32 (Status (Condition_rsp c)))) (toRspClasses (Some r)) =
              sorted_list_of_set (fst ` set (StatusCodeResponses r)))"
proof -
  let ?S = "fst ` set (StatusCodeResponses r)"
  have eq: "toRspClasses (Some r) = map class_of (sorted_list_of_set ?S)"
    using sort_go_map [OF assms] by (simp add: toRspClasses_Some del: toRspClasses.simps)
  have len: "length (sorted_list_of_set ?S) = card ?S"
    by simp
  have deg: "list_all (\<lambda>c. Min_u32 (Status (Condition_rsp c)) = Max_u32 (Status (Condition_rsp c)))
      (map class_of xs)" for xs
    by (simp add: list_all_iff class_of_def)
  have rng: "map (\<lambda>c. uint (Min_u32 (Status (Condition_rsp c)))) (map class_of xs) = xs"
    if "\<forall>status \<in> set xs. 0 \<le> status \<and> status < 2 ^ 32" for xs
    using that
  proof (induction xs)
    case Nil
    then show ?case by simp
  next
    case (Cons x xs)
    then have "0 \<le> x" "x < 2 ^ 32" by simp_all
    then have "uint (word_of_int x :: 32 word) = x"
      by (simp add: uint_word_of_int take_bit_int_eq_self)
    then show ?case using Cons by (simp add: class_of_def)
  qed
  show ?thesis
    unfolding eq using len deg rng [of "sorted_list_of_set ?S"]
    by (simp add: class_of_def [abs_def])
qed

text \<open>An instance of C4 with four codes, two of them adjacent.\<close>

theorem one_class_per_status_witness:
  "go_map [(503 :: int, ''c''), (200, ''a''), (404, ''b''), (201, ''d'')] \<and>
   list_all (\<lambda>status. 0 \<le> status \<and> status < 2 ^ 32)
     (map fst [(503 :: int, ''c''), (200, ''a''), (404, ''b''), (201, ''d'')]) \<and>
   length (toRspClasses
      (Some \<lparr>Default = None, StatusCodeResponses = [(503, ''c''), (200, ''a''), (404, ''b''), (201, ''d'')]\<rparr>)) = 4 \<and>
   map (\<lambda>c. uint (Min_u32 (Status (Condition_rsp c))))
     (toRspClasses
        (Some \<lparr>Default = None, StatusCodeResponses = [(503, ''c''), (200, ''a''), (404, ''b''), (201, ''d'')]\<rparr>)) =
     [200, 201, 404, 503]"
proof -
  define r where "r = \<lparr>Default = None :: string option,
    StatusCodeResponses = [(503 :: int, ''c''), (200, ''a''), (404, ''b''), (201, ''d'')]\<rparr>"
  have m: "StatusCodeResponses r = [(503, ''c''), (200, ''a''), (404, ''b''), (201, ''d'')]"
    by (simp add: r_def)
  have g: "go_map (StatusCodeResponses r)" unfolding m by (simp add: go_map_def)
  have b: "\<forall>status \<in> fst ` set (StatusCodeResponses r). 0 \<le> status \<and> status < 2 ^ 32"
    unfolding m by simp
  have k: "fst ` set (StatusCodeResponses r) = set [503, 200, 404, 201]"
    unfolding m by simp
  have s: "sorted_list_of_set (fst ` set (StatusCodeResponses r)) = [200, 201, 404, 503]"
    unfolding k sorted_list_of_set_sort_remdups by simp
  have c: "card (fst ` set (StatusCodeResponses r)) = 4"
    unfolding k by (simp add: card_insert_if)
  note t = one_class_per_status [OF g]
  have "length (toRspClasses (Some r)) = 4"
    using t c by simp
  moreover have "map (\<lambda>c. uint (Min_u32 (Status (Condition_rsp c)))) (toRspClasses (Some r)) =
      [200, 201, 404, 503]"
    using t b s by simp
  ultimately show ?thesis using g b unfolding r_def by simp
qed

text \<open>
  C4 as it is stated fails for a declared code outside the 32-bit range: the bounds of
  the class of \<open>- 1\<close> are 4294967295, and those of 4294967496 are 200.
\<close>

theorem status_range_wraps_counterexample:
  "toRspClasses (Some \<lparr>Default = None, StatusCodeResponses = [(4294967496, ()), (- 1, ())]\<rparr>) =
     [\<lparr>Condition_rsp = \<lparr>Status = \<lparr>Min_u32 = 4294967295, Max_u32 = 4294967295\<rparr>\<rparr>, IsFailure = False\<rparr>,
      \<lparr>Condition_rsp = \<lparr>Status = \<lparr>Min_u32 = 200, Max_u32 = 200\<rparr>\<rparr>, IsFailure = True\<rparr>] \<and>
   uint (4294967295 :: 32 word) \<noteq> - 1 \<and> uint (200 :: 32 word) \<noteq> 4294967496"
  by simp

subsection \<open>Claims about the route enumerator\<close>

text \<open>
  C3. The rules of a document are those of its declared operations, in this order:
  the paths ascending in the bytewise lexicographic order, and for one path the
  methods in the order DELETE, GET, HEAD, OPTIONS, PATCH, POST, PUT. The list of
  declared operations holds exactly the pairs of a path and a method for which the
  document has an operation, so a method without an operation is skipped, and it does
  not depend on the order of the entries of the document.
\<close>

theorem routes_in_canonical_order:
  assumes "go_map (path_map sw)"
  shows "openAPI_routes sw = map rule_of (declared_ops sw) \<and>
         sorted_wrt before (declared_ops sw) \<and>
         set (declared_ops sw) =
           {(p, meth, oper).
              \<exists>item. (p, item) \<in> set (path_map sw) \<and> operation_of item meth = Some oper}"
  using assms openAPI_routes_declared sorted_declared_ops set_declared_ops by blast

text \<open>An instance of C3: the paths and the methods come out in the canonical order.\<close>

theorem routes_in_canonical_order_witness:
  "go_map (path_map books_doc) \<and>
   map (\<lambda>(p, meth, oper). (p, meth)) (declared_ops books_doc) =
     [(''/a/{id}'', GET), (''/b'', DELETE), (''/b'', PUT)] \<and>
   map Name (openAPI_routes books_doc) = [''GET /a/{id}'', ''DELETE /b'', ''PUT /b'']"
proof -
  have "openAPI_routes books_doc = map rule_of (declared_ops books_doc)"
    using routes_in_canonical_order [OF books_doc_go_map] by blast
  then have "map Name (openAPI_routes books_doc) = [''GET /a/{id}'', ''DELETE /b'', ''PUT /b'']"
    by (simp add: books_doc_declared rule_of_def MethodGet_def MethodDelete_def MethodPut_def)
  then show ?thesis using books_doc_go_map by (simp add: books_doc_declared)
qed

text \<open>
  C5. The number of rules is the number of pairs of a path and a method that have an
  operation. For every such pair exactly one rule carries the name made of the method
  name in upper case, one space and the untranslated path, and it is the rule of that
  operation; every rule is the rule of such a pair; the names of the rules are
  pairwise distinct.
\<close>

theorem one_rule_per_operation:
  assumes "go_map (path_map sw)"
  shows "length (openAPI_routes sw) =
           card {(p, meth). \<exists>item oper.
                   (p, item) \<in> set (path_map sw) \<and> operation_of item meth = Some oper} \<and>
         (\<forall>p item meth oper.
            (p, item) \<in> set (path_map sw) \<and> operation_of item meth = Some oper \<longrightarrow>
            filter (\<lambda>r. Name r = method_name meth @ '' '' @ p) (openAPI_routes sw) =
              [mkRouteSpec p (pathToRegex p) (method_name meth) (Responses oper)]) \<and>
         (\<forall>r \<in> set (openAPI_routes sw).
            \<exists>p item meth oper.
              (p, item) \<in> set (path_map sw) \<and> operation_of item meth = Some oper \<and>
              r = mkRouteSpec p (pathToRegex p) (method_name meth) (Responses oper)) \<and>
         distinct (map Name (openAPI_routes sw)) \<and>
         (\<forall>p re meth rs. Name (mkRouteSpec p re meth rs) = meth @ '' '' @ p) \<and>
         (\<forall>meth. method_name meth \<in>
            {''DELETE'', ''GET'', ''HEAD'', ''OPTIONS'', ''PATCH'', ''POST'', ''PUT''})"
proof -
  let ?D = "{(p, meth). \<exists>item oper.
      (p, item) \<in> set (path_map sw) \<and> operation_of item meth = Some oper}"
  let ?key = "\<lambda>t :: string \<times> http_method \<times> 'a Operation. (fst t, fst (snd t))"
  have routes: "openAPI_routes sw = map rule_of (declared_ops sw)"
    by (rule openAPI_routes_declared [OF assms])
  have mk: "rule_of (p, meth, oper) = mkRouteSpec p (pathToRegex p) (method_name meth) (Responses oper)"
    for p meth and oper :: "'a Operation"
    by (simp add: rule_of_def mkRouteSpec_def toReqMatch_def)
  have "?key ` set (declared_ops sw) = ?D"
    unfolding set_declared_ops [OF assms] by force
  then have "card ?D = card (set (map ?key (declared_ops sw)))" by simp
  also have "\<dots> = length (map ?key (declared_ops sw))"
    by (rule distinct_card [OF distinct_keys_declared])
  finally have len: "length (openAPI_routes sw) = card ?D" by (simp add: routes)
  have dist: "distinct (map Name (openAPI_routes sw))"
    using distinct_names_declared [of sw] by (simp add: routes)
  have one: "filter (\<lambda>r. Name r = method_name meth @ '' '' @ p) (openAPI_routes sw) =
      [mkRouteSpec p (pathToRegex p) (method_name meth) (Responses oper)]"
    if "(p, item) \<in> set (path_map sw)" "operation_of item meth = Some oper" for p item meth oper
  proof -
    have "(p, meth, oper) \<in> set (declared_ops sw)"
      using that set_declared_ops [OF assms] by blast
    then have "rule_of (p, meth, oper) \<in> set (openAPI_routes sw)" by (simp add: routes)
    from filter_distinct_key [OF dist this] show ?thesis
      by (simp add: Name_rule_of flip: mk)
  qed
  have every: "\<exists>p item meth oper.
      (p, item) \<in> set (path_map sw) \<and> operation_of item meth = Some oper \<and>
      r = mkRouteSpec p (pathToRegex p) (method_name meth) (Responses oper)"
    if "r \<in> set (openAPI_routes sw)" for r
  proof -
    have "r \<in> rule_of ` set (declared_ops sw)" using that routes by simp
    then obtain t where t: "t \<in> set (declared_ops sw)" "r = rule_of t" by blast
    obtain p meth oper where "t = (p, meth, oper)" by (metis prod_cases3)
    then show ?thesis using t set_declared_ops [OF assms] mk by blast
  qed
  have names: "method_name meth \<in>
      {''DELETE'', ''GET'', ''HEAD'', ''OPTIONS'', ''PATCH'', ''POST'', ''PUT''}" for meth
    by (cases meth)
      (simp_all add: MethodDelete_def MethodGet_def MethodHead_def MethodOptions_def
        MethodPatch_def MethodPost_def MethodPut_def)
  have nm: "Name (mkRouteSpec p re meth rs) = meth @ '' '' @ p"
    for p re meth and rs :: "'b Responses option"
    by (simp add: mkRouteSpec_def)
  show ?thesis using len one every dist names nm by blast
qed

text \<open>An instance of C5 with three declared operations.\<close>

theorem one_rule_per_operation_witness:
  "go_map (path_map books_doc) \<and>
   length (openAPI_routes books_doc) = 3 \<and>
   card {(p, meth). \<exists>item oper.
           (p, item) \<in> set (path_map books_doc) \<and> operation_of item meth = Some oper} = 3 \<and>
   filter (\<lambda>r. Name r = ''PUT /b'') (openAPI_routes books_doc) =
     [\<lparr>Name = ''PUT /b'', Condition = \<lparr>PathRegex = ''/b'', Method = ''PUT''\<rparr>,
       ResponseClasses = []\<rparr>]"
proof -
  note t = one_rule_per_operation [OF books_doc_go_map]
  have len: "length (openAPI_routes books_doc) = 3"
    by (simp add: openAPI_routes_declared [OF books_doc_go_map] books_doc_declared)
  have "length (openAPI_routes books_doc) = card {(p, meth). \<exists>item oper.
      (p, item) \<in> set (path_map books_doc) \<and> operation_of item meth = Some oper}"
    using t by (rule conjunct1)
  then have card: "card {(p, meth). \<exists>item oper.
      (p, item) \<in> set (path_map books_doc) \<and> operation_of item meth = Some oper} = 3"
    unfolding len by (rule sym)
  let ?item = "zero_PathItem
      \<lparr>Put := Some \<lparr>Responses = None\<rparr>,
       Delete := Some \<lparr>Responses =
         Some \<lparr>Default = None, StatusCodeResponses = [(500 :: int, ()), (204, ())]\<rparr>\<rparr>\<rparr>"
  have m: "(''/b'', ?item) \<in> set (path_map books_doc) \<and>
      operation_of ?item PUT = Some \<lparr>Responses = None\<rparr>"
    by (simp add: books_doc_def path_map_def)
  have "\<forall>p item meth oper.
      (p, item) \<in> set (path_map books_doc) \<and> operation_of item meth = Some oper \<longrightarrow>
      filter (\<lambda>r. Name r = method_name meth @ '' '' @ p) (openAPI_routes books_doc) =
        [mkRouteSpec p (pathToRegex p) (method_name meth) (Responses oper)]"
    using t by (rule conjunct1 [OF conjunct2])
  from this [rule_format, OF m]
  have "filter (\<lambda>r. Name r = method_name PUT @ '' '' @ ''/b'') (openAPI_routes books_doc) =
      [mkRouteSpec ''/b'' (pathToRegex ''/b'') (method_name PUT)
         (Responses \<lparr>Responses = None :: unit Responses option\<rparr>)]" .
  moreover have "pathToRegex ''/b'' = ''/b''"
    by (simp add: pathToRegex_brace_subst special_def bs_def)
  ultimately have "filter (\<lambda>r. Name r = ''PUT /b'') (openAPI_routes books_doc) =
     [\<lparr>Name = ''PUT /b'', Condition = \<lparr>PathRegex = ''/b'', Method = ''PUT''\<rparr>,
       ResponseClasses = []\<rparr>]"
    by (simp add: mkRouteSpec_def toReqMatch_def MethodPut_def)
  then show ?thesis using books_doc_go_map len card by (intro conjI)
qed

text \<open>
  C8. A document whose collection of paths is absent or empty has no rules, and once
  it has been read and parsed \<^verbatim>\<open>renderOpenAPI\<close> hands the profile with the empty
  list of rules to the serialiser and writes what it returns; no error comes from the
  emptiness. An operation whose responses are absent, or declare no status code, gets a
  rule with an empty list of classes, also when a default response is declared: the
  enumerator emits exactly one rule with the name of that operation, and its list of
  classes is empty. For every document that has been read and parsed,
  \<^verbatim>\<open>renderOpenAPI\<close> returns what the serialiser returns for the profile with the
  rules of the document.
\<close>

theorem empty_inputs_are_not_errors:
  "(Paths sw = None \<or> Paths sw = Some [] \<longrightarrow>
      openAPI_routes sw = [] \<and>
      ((if openAPI options = ''-'' then Inr (Stdin env) else Open env (openAPI options)) = Inr input \<and>
       ReadAll env input = Inr bytes \<and> YAMLToJSON env bytes = Inr json \<and>
       UnmarshalJSON env json = Inr sw \<longrightarrow>
       renderOpenAPI env options w =
         (case Marshal env
                 \<lparr>object_meta =
                    \<lparr>Name_meta = name options @ ''.'' @ namespace options @ ''.svc.cluster.local'',
                     Namespace = controlPlaneNamespace env\<rparr>,
                  type_meta = \<lparr>APIVersion = ''linkerd.io/v1alpha1'', Kind = ''ServiceProfile''\<rparr>,
                  Spec = \<lparr>Routes = []\<rparr>\<rparr> of
            Inl err \<Rightarrow> Inl (''Error writing Service Profile: '' @ err)
          | Inr output \<Rightarrow> Inr (w @ output)))) \<and>
   toRspClasses None = [] \<and>
   toRspClasses (Some \<lparr>Default = d, StatusCodeResponses = []\<rparr>) = [] \<and>
   ResponseClasses (mkRouteSpec path re meth None) = [] \<and>
   ResponseClasses (mkRouteSpec path re meth (Some \<lparr>Default = d, StatusCodeResponses = []\<rparr>)) = [] \<and>
   (go_map (path_map doc) \<and> (p, item) \<in> set (path_map doc) \<and>
    operation_of item m = Some oper \<and>
    (case Responses oper of None \<Rightarrow> True | Some r \<Rightarrow> StatusCodeResponses r = []) \<longrightarrow>
      filter (\<lambda>r. Name r = method_name m @ '' '' @ p) (openAPI_routes doc) =
        [\<lparr>Name = method_name m @ '' '' @ p,
          Condition = \<lparr>PathRegex = pathToRegex p, Method = method_name m\<rparr>,
          ResponseClasses = []\<rparr>]) \<and>
   ((if openAPI options = ''-'' then Inr (Stdin env) else Open env (openAPI options)) = Inr input \<and>
    ReadAll env input = Inr bytes \<and> YAMLToJSON env bytes = Inr json \<and>
    UnmarshalJSON env json = Inr doc \<longrightarrow>
      renderOpenAPI env options w =
        (case Marshal env
                \<lparr>object_meta =
                   \<lparr>Name_meta = name options @ ''.'' @ namespace options @ ''.svc.cluster.local'',
                    Namespace = controlPlaneNamespace env\<rparr>,
                 type_meta = \<lparr>APIVersion = ''linkerd.io/v1alpha1'', Kind = ''ServiceProfile''\<rparr>,
                 Spec = \<lparr>Routes = openAPI_routes doc\<rparr>\<rparr> of
           Inl err \<Rightarrow> Inl (''Error writing Service Profile: '' @ err)
         | Inr output \<Rightarrow> Inr (w @ output)))"
proof -
  have r: "openAPI_routes sw = []" if "Paths sw = None \<or> Paths sw = Some []"
    using that by (auto simp: openAPI_routes_def)
  have old: "(Paths sw = None \<or> Paths sw = Some [] \<longrightarrow>
      openAPI_routes sw = [] \<and>
      ((if openAPI options = ''-'' then Inr (Stdin env) else Open env (openAPI options)) = Inr input \<and>
       ReadAll env input = Inr bytes \<and> YAMLToJSON env bytes = Inr json \<and>
       UnmarshalJSON env json = Inr sw \<longrightarrow>
       renderOpenAPI env options w =
         (case Marshal env
                 \<lparr>object_meta =
                    \<lparr>Name_meta = name options @ ''.'' @ namespace options @ ''.svc.cluster.local'',
                     Namespace = controlPlaneNamespace env\<rparr>,
                  type_meta = \<lparr>APIVersion = ''linkerd.io/v1alpha1'', Kind = ''ServiceProfile''\<rparr>,
                  Spec = \<lparr>Routes = []\<rparr>\<rparr> of
            Inl err \<Rightarrow> Inl (''Error writing Service Profile: '' @ err)
          | Inr output \<Rightarrow> Inr (w @ output)))) \<and>
   toRspClasses None = [] \<and>
   toRspClasses (Some \<lparr>Default = d, StatusCodeResponses = []\<rparr>) = [] \<and>
   ResponseClasses (mkRouteSpec path re meth None) = [] \<and>
   ResponseClasses (mkRouteSpec path re meth (Some \<lparr>Default = d, StatusCodeResponses = []\<rparr>)) = []"
    by (auto simp: r renderOpenAPI_def mkRouteSpec_def Let_def)
  have rule: "filter (\<lambda>r. Name r = method_name m @ '' '' @ p) (openAPI_routes doc) =
        [\<lparr>Name = method_name m @ '' '' @ p,
          Condition = \<lparr>PathRegex = pathToRegex p, Method = method_name m\<rparr>,
          ResponseClasses = []\<rparr>]"
    if g: "go_map (path_map doc)" and i: "(p, item) \<in> set (path_map doc)"
      and o: "operation_of item m = Some oper"
      and e: "case Responses oper of None \<Rightarrow> True | Some r \<Rightarrow> StatusCodeResponses r = []"
  proof -
    have "toRspClasses (Responses oper) = []"
      using e by (cases "Responses oper") simp_all
    then have "rule_of (p, m, oper) =
        \<lparr>Name = method_name m @ '' '' @ p,
          Condition = \<lparr>PathRegex = pathToRegex p, Method = method_name m\<rparr>,
          ResponseClasses = []\<rparr>"
      by (simp add: rule_of_def)
    then show ?thesis using declared_rule_unique [OF g i o] by simp
  qed
  have render: "renderOpenAPI env options w =
        (case Marshal env
                \<lparr>object_meta =
                   \<lparr>Name_meta = name options @ ''.'' @ namespace options @ ''.svc.cluster.local'',
                    Namespace = controlPlaneNamespace env\<rparr>,
                 type_meta = \<lparr>APIVersion = ''linkerd.io/v1alpha1'', Kind = ''ServiceProfile''\<rparr>,
                 Spec = \<lparr>Routes = openAPI_routes doc\<rparr>\<rparr> of
           Inl err \<Rightarrow> Inl (''Error writing Service Profile: '' @ err)
         | Inr output \<Rightarrow> Inr (w @ output))"
    if "(if openAPI options = ''-'' then Inr (Stdin env) else Open env (openAPI options)) = Inr input \<and>
    ReadAll env input = Inr bytes \<and> YAMLToJSON env bytes = Inr json \<and>
    UnmarshalJSON env json = Inr doc"
    using that by (auto simp: renderOpenAPI_def Let_def)
  show ?thesis using old rule render by blast
qed

text \<open>
  An instance of C8: the profile of a document without paths is written, and the two
  operations of a document that declare no status code get their rules, one of them
  with a default response.
\<close>

theorem empty_inputs_are_not_errors_witness:
  "Paths \<lparr>Paths = Some []\<rparr> = Some [] \<and>
   ReadAll empty_env (Stdin empty_env) = Inr ''paths: {}'' \<and>
   UnmarshalJSON empty_env ''paths: {}'' = Inr \<lparr>Paths = Some []\<rparr> \<and>
   openAPI_routes \<lparr>Paths = Some [] :: (string \<times> unit PathItem) list option\<rparr> = [] \<and>
   renderOpenAPI empty_env
     \<lparr>name = ''web-svc'', namespace = ''emojivoto'', template = False, openAPI = ''-''\<rparr> [] =
     Inr ''ServiceProfile web-svc.emojivoto.svc.cluster.local'' \<and>
   go_map (path_map books_doc) \<and>
   filter (\<lambda>r. Name r = ''GET /a/{id}'') (openAPI_routes books_doc) =
     [\<lparr>Name = ''GET /a/{id}'', Condition = \<lparr>PathRegex = ''/a/[^/]*'', Method = ''GET''\<rparr>,
       ResponseClasses = []\<rparr>] \<and>
   filter (\<lambda>r. Name r = ''PUT /b'') (openAPI_routes books_doc) =
     [\<lparr>Name = ''PUT /b'', Condition = \<lparr>PathRegex = ''/b'', Method = ''PUT''\<rparr>,
       ResponseClasses = []\<rparr>]"
proof -
  let ?sw = "\<lparr>Paths = Some [] :: (string \<times> unit PathItem) list option\<rparr>"
  let ?options = "\<lparr>name = ''web-svc'', namespace = ''emojivoto'', template = False, openAPI = ''-''\<rparr>"
  have h: "Paths ?sw = None \<or> Paths ?sw = Some []" by simp
  have io: "(if openAPI ?options = ''-'' then Inr (Stdin empty_env)
             else Open empty_env (openAPI ?options)) = Inr () \<and>
      ReadAll empty_env () = Inr ''paths: {}'' \<and> YAMLToJSON empty_env ''paths: {}'' = Inr ''paths: {}'' \<and>
      UnmarshalJSON empty_env ''paths: {}'' = Inr ?sw"
    by (simp add: empty_env_def)
  note t = empty_inputs_are_not_errors [where sw = ?sw and options = ?options and env = empty_env
      and input = "()" and bytes = "''paths: {}''" and json = "''paths: {}''" and w = "[]"]
  have "openAPI_routes ?sw = []" using t h by blast
  moreover have "renderOpenAPI empty_env ?options [] =
      (case Marshal empty_env
                 \<lparr>object_meta =
                    \<lparr>Name_meta = name ?options @ ''.'' @ namespace ?options @ ''.svc.cluster.local'',
                     Namespace = controlPlaneNamespace empty_env\<rparr>,
                  type_meta = \<lparr>APIVersion = ''linkerd.io/v1alpha1'', Kind = ''ServiceProfile''\<rparr>,
                  Spec = \<lparr>Routes = []\<rparr>\<rparr> of
            Inl err \<Rightarrow> Inl (''Error writing Service Profile: '' @ err)
          | Inr output \<Rightarrow> Inr ([] @ output))"
    using t h io by blast
  ultimately have first: "openAPI_routes ?sw = [] \<and>
      renderOpenAPI empty_env ?options [] = Inr ''ServiceProfile web-svc.emojivoto.svc.cluster.local''"
    by (simp add: empty_env_def)
  let ?get = "\<lparr>Responses = Some \<lparr>Default = Some (), StatusCodeResponses = [] :: (int \<times> unit) list\<rparr>\<rparr>"
  let ?a = "zero_PathItem\<lparr>Get := Some ?get\<rparr>"
  let ?put = "\<lparr>Responses = None :: unit Responses option\<rparr>"
  let ?b = "zero_PathItem
      \<lparr>Put := Some ?put,
       Delete := Some \<lparr>Responses =
         Some \<lparr>Default = None, StatusCodeResponses = [(500 :: int, ()), (204, ())]\<rparr>\<rparr>\<rparr>"
  have ga: "go_map (path_map books_doc) \<and> (''/a/{id}'', ?a) \<in> set (path_map books_doc) \<and>
      operation_of ?a GET = Some ?get \<and>
      (case Responses ?get of None \<Rightarrow> True | Some r \<Rightarrow> StatusCodeResponses r = [])"
    using books_doc_go_map by (simp add: books_doc_def path_map_def)
  have gb: "go_map (path_map books_doc) \<and> (''/b'', ?b) \<in> set (path_map books_doc) \<and>
      operation_of ?b PUT = Some ?put \<and>
      (case Responses ?put of None \<Rightarrow> True | Some r \<Rightarrow> StatusCodeResponses r = [])"
    using books_doc_go_map by (simp add: books_doc_def path_map_def)
  have ra: "filter (\<lambda>r. Name r = method_name GET @ '' '' @ ''/a/{id}'') (openAPI_routes books_doc) =
      [\<lparr>Name = method_name GET @ '' '' @ ''/a/{id}'',
        Condition = \<lparr>PathRegex = pathToRegex ''/a/{id}'', Method = method_name GET\<rparr>,
        ResponseClasses = []\<rparr>]"
    by (rule empty_inputs_are_not_errors [where doc = books_doc and p = "''/a/{id}''" and item = ?a
          and m = GET and oper = ?get, THEN conjunct2, THEN conjunct2, THEN conjunct2,
          THEN conjunct2, THEN conjunct2, THEN conjunct1, THEN mp, OF ga])
  have rb: "filter (\<lambda>r. Name r = method_name PUT @ '' '' @ ''/b'') (openAPI_routes books_doc) =
      [\<lparr>Name = method_name PUT @ '' '' @ ''/b'',
        Condition = \<lparr>PathRegex = pathToRegex ''/b'', Method = method_name PUT\<rparr>,
        ResponseClasses = []\<rparr>]"
    by (rule empty_inputs_are_not_errors [where doc = books_doc and p = "''/b''" and item = ?b
          and m = PUT and oper = ?put, THEN conjunct2, THEN conjunct2, THEN conjunct2,
          THEN conjunct2, THEN conjunct2, THEN conjunct1, THEN mp, OF gb])
  have re: "pathToRegex ''/a/{id}'' = ''/a/[^/]*''" "pathToRegex ''/b'' = ''/b''"
    by (simp_all add: pathToRegex_brace_subst special_def bs_def)
  have "filter (\<lambda>r. Name r = ''GET /a/{id}'') (openAPI_routes books_doc) =
     [\<lparr>Name = ''GET /a/{id}'', Condition = \<lparr>PathRegex = ''/a/[^/]*'', Method = ''GET''\<rparr>,
       ResponseClasses = []\<rparr>]"
    using ra by (simp add: re MethodGet_def)
  moreover have "filter (\<lambda>r. Name r = ''PUT /b'') (openAPI_routes books_doc) =
     [\<lparr>Name = ''PUT /b'', Condition = \<lparr>PathRegex = ''/b'', Method = ''PUT''\<rparr>,
       ResponseClasses = []\<rparr>]"
    using rb by (simp add: re MethodPut_def)
  ultimately show ?thesis using first io books_doc_go_map by (simp add: empty_env_def)
qed

text \<open>
  C9. Two visits of the same document, whose maps of paths and of responses are
  enumerated in different orders, produce the same list of rules, with the same
  response classes in the same order.
\<close>

theorem routes_independent_of_visit_order:
  assumes "wf_document s1" and "wf_document s2" and "same_document s1 s2"
  shows "openAPI_routes s1 = openAPI_routes s2"
proof (cases "Paths s1")
  case None
  then have "Paths s2 = None" using assms(3) by (cases "Paths s2") (simp_all add: same_document_def)
  then show ?thesis using None by (simp add: openAPI_routes_def)
next
  case (Some m1)
  then obtain m2 where m2: "Paths s2 = Some m2"
    using assms(3) by (cases "Paths s2") (simp_all add: same_document_def)
  have "same_map same_item m1 m2" using assms(3) Some m2 by (simp add: same_document_def)
  moreover have "go_map m1" "list_all (\<lambda>(k, item). wf_item item) m1"
    using assms(1) Some by (simp_all add: wf_document_def path_map_def)
  moreover have "go_map m2" "list_all (\<lambda>(k, item). wf_item item) m2"
    using assms(2) m2 by (simp_all add: wf_document_def path_map_def)
  ultimately have "routes_loop m1 (sort (map fst m1)) [] = routes_loop m2 (sort (map fst m2)) []"
    by (intro same_map_routes)
  then show ?thesis using Some m2 by (simp add: openAPI_routes_def range_keys_eq)
qed

text \<open>An instance of C9 with both maps of the document visited in another order.\<close>

theorem routes_independent_of_visit_order_witness:
  "wf_document books_doc \<and> wf_document books_doc_revisited \<and>
   same_document books_doc books_doc_revisited \<and>
   Paths books_doc \<noteq> Paths books_doc_revisited \<and>
   openAPI_routes books_doc = openAPI_routes books_doc_revisited"
proof -
  have w1: "wf_document books_doc"
    by (simp add: books_doc_def wf_document_def path_map_def go_map_def wf_item_def
          wf_operation_def zero_PathItem_def)
  have w2: "wf_document books_doc_revisited"
    by (simp add: books_doc_revisited_def wf_document_def path_map_def go_map_def wf_item_def
          wf_operation_def zero_PathItem_def)
  have s: "same_document books_doc books_doc_revisited"
    by (simp add: books_doc_def books_doc_revisited_def same_document_def same_map_def
          same_item_def same_operation_def same_responses_def zero_PathItem_def insert_commute)
  have d: "Paths books_doc \<noteq> Paths books_doc_revisited"
    by (simp add: books_doc_def books_doc_revisited_def)
  show ?thesis
    using routes_independent_of_visit_order [OF w1 w2 s] w1 w2 s d by simp
qed

end
